theory Spec2Isabelle
  imports Main "HOL-Library.Word" "HOL-Library.Multiset"
begin

section \<open>Errors\<close>

text \<open>
  Every failure of the library is one exception type, \<^verbatim>\<open>ANNException\<close>, told apart
  by its message. Each throw site of the modelled files is one constructor here.
  \<open>OutOfRange\<close> is not an exception of the source: it stands for an access outside
  \<open>[0, size)\<close>, which the source does not check (undefined behaviour, at most an
  assertion of a debug build).
\<close>

datatype error =
    NumberParsing
  | NoLeadingV
  | MalformedVersion
  | DimsMismatch nat nat
  | SizeMismatch nat nat
  | UnknownFileExtension string
  | OutOfRange

section \<open>Datasets (concepts/data.h)\<close>

text \<open>
  The concept \<^verbatim>\<open>MemoryDataset\<close>: \<^verbatim>\<open>size()\<close>, \<^verbatim>\<open>dimensions()\<close>, \<^verbatim>\<open>get_datum(i)\<close>
  and \<^verbatim>\<open>set_datum(i, v)\<close>. An entry is a value of the type \<open>'a\<close>; the number of
  dimensions is a field of its own, as the concept keeps the two apart.
\<close>

record 'a dataset =
  dimensions :: nat
  entries :: "'a list"

definition size_of :: "'a dataset \<Rightarrow> nat" where
  "size_of d = length (entries d)"

definition get_datum :: "'a dataset \<Rightarrow> nat \<Rightarrow> error + 'a" where
  "get_datum d i = (if i < size_of d then Inr (entries d ! i) else Inl OutOfRange)"

definition set_datum :: "'a dataset \<Rightarrow> nat \<Rightarrow> 'a \<Rightarrow> error + 'a dataset" where
  "set_datum d i v =
     (if i < size_of d then Inr (d\<lparr>entries := (entries d)[i := v]\<rparr>) else Inl OutOfRange)"

text \<open>
  A \<^verbatim>\<open>for\<close> loop over indices whose body may fail: the loop stops at the first
  failure and hands back the state reached so far, as the caller of a function that
  threw finds the objects it passed by reference.
\<close>

fun for_each :: "nat list \<Rightarrow> (nat \<Rightarrow> 's \<Rightarrow> error + 's) \<Rightarrow> 's \<Rightarrow> error option \<times> 's" where
  "for_each [] body s = (None, s)"
| "for_each (i # is) body s =
     (case body i s of Inl e \<Rightarrow> (Some e, s) | Inr s' \<Rightarrow> for_each is body s')"

text \<open>\<^verbatim>\<open>data::copy(input, output)\<close>.\<close>

definition copy :: "'a dataset \<Rightarrow> 'a dataset \<Rightarrow> error option \<times> 'a dataset" where
  "copy input output =
     (let isize = size_of input; osize = size_of output in
      if isize \<noteq> osize then (Some (SizeMismatch isize osize), output)
      else for_each [0..<isize]
             (\<lambda>i out. case get_datum input i of
                         Inl e \<Rightarrow> Inl e
                       | Inr v \<Rightarrow> set_datum out i v)
             output)"

section \<open>Version identifiers (lib/version.h)\<close>

text \<open>
  The members of \<^verbatim>\<open>Version\<close> are \<^verbatim>\<open>size_t\<close>: 64-bit words. \<^verbatim>\<open>str()\<close> prints
  them with \<^verbatim>\<open>fmt::format("v{}.{}.{}", ...)\<close>, that is in decimal without sign or
  padding.
\<close>

type_synonym size_t = "64 word"

record version =
  major :: size_t
  minor :: size_t
  patch :: size_t

definition digit_char :: "nat \<Rightarrow> char" where
  "digit_char d = char_of (48 + d)"

fun to_decimal :: "nat \<Rightarrow> string" where
  "to_decimal n =
     (if n < 10 then [digit_char n] else to_decimal (n div 10) @ [digit_char (n mod 10)])"

declare to_decimal.simps [simp del]

definition str :: "version \<Rightarrow> string" where
  "str v = ''v'' @ to_decimal (unat (major v)) @ ''.'' @ to_decimal (unat (minor v)) @ ''.''
             @ to_decimal (unat (patch v))"

text \<open>
  \<^verbatim>\<open>std::from_chars\<close> for an unsigned type, base 10: it reads the longest prefix of
  decimal digits (no sign, no leading white space), fails with \<^verbatim>\<open>invalid_argument\<close>
  when that prefix is empty and with \<^verbatim>\<open>result_out_of_range\<close> when the number does
  not fit the type. Characters after the digits are left unread.
\<close>

definition is_digit :: "char \<Rightarrow> bool" where
  "is_digit c = (48 \<le> (of_char c :: nat) \<and> (of_char c :: nat) \<le> 57)"

definition digit_value :: "char \<Rightarrow> nat" where
  "digit_value c = of_char c - 48"

definition digits_value :: "string \<Rightarrow> nat" where
  "digits_value ds = foldl (\<lambda>a c. 10 * a + digit_value c) 0 ds"

datatype errc = invalid_argument | result_out_of_range

definition from_chars :: "string \<Rightarrow> errc + size_t" where
  "from_chars view =
     (let ds = takeWhile is_digit view in
      if ds = [] then Inl invalid_argument
      else let n = digits_value ds in
           if n < 2 ^ 64 then Inr (of_nat n) else Inl result_out_of_range)"

text \<open>\<^verbatim>\<open>parse_int\<close> looks at the error code of the result only, not at where it stopped.\<close>

definition parse_int :: "string \<Rightarrow> error + size_t" where
  "parse_int view = (case from_chars view of Inl ec \<Rightarrow> Inl NumberParsing | Inr v \<Rightarrow> Inr v)"

text \<open>
  \<^verbatim>\<open>string_view::find(c, pos)\<close> (\<open>None\<close> is \<^verbatim>\<open>npos\<close>), \<^verbatim>\<open>substr(pos, len)\<close>
  and \<^verbatim>\<open>starts_with(c)\<close>.
\<close>

primrec index_of :: "char \<Rightarrow> string \<Rightarrow> nat option" where
  "index_of c [] = None"
| "index_of c (x # xs) = (if x = c then Some 0 else map_option Suc (index_of c xs))"

definition find_char :: "string \<Rightarrow> char \<Rightarrow> nat \<Rightarrow> nat option" where
  "find_char v c pos = map_option (\<lambda>i. pos + i) (index_of c (drop pos v))"

definition substr :: "string \<Rightarrow> nat \<Rightarrow> nat \<Rightarrow> string" where
  "substr v pos len = take len (drop pos v)"

definition starts_with :: "string \<Rightarrow> char \<Rightarrow> bool" where
  "starts_with v c = (case v of [] \<Rightarrow> False | x # _ \<Rightarrow> x = c)"

text \<open>The constructor \<^verbatim>\<open>Version(std::string_view v)\<close>.\<close>

definition Version :: "string \<Rightarrow> error + version" where
  "Version v =
     (if \<not> starts_with v CHR ''v'' then Inl NoLeadingV
      else let start = 1 in
        (case find_char v CHR ''.'' start of
           None \<Rightarrow> Inl MalformedVersion
         | Some stop \<Rightarrow>
            (case parse_int (substr v start (stop - start)) of
               Inl e \<Rightarrow> Inl e
             | Inr mj \<Rightarrow>
                (let start = stop + 1 in
                 (case find_char v CHR ''.'' start of
                    None \<Rightarrow> Inl MalformedVersion
                  | Some stop \<Rightarrow>
                     (case parse_int (substr v start (stop - start)) of
                        Inl e \<Rightarrow> Inl e
                      | Inr mn \<Rightarrow>
                         (case parse_int (drop (stop + 1) v) of
                            Inl e \<Rightarrow> Inl e
                          | Inr pt \<Rightarrow> Inr \<lparr>major = mj, minor = mn, patch = pt\<rparr>)))))))"

text \<open>
  The grammar as the specification words it: the letter \<open>v\<close>, then three non-empty
  runs of decimal digits separated by single dots, and nothing else.
\<close>

definition is_number :: "string \<Rightarrow> bool" where
  "is_number s = (s \<noteq> [] \<and> list_all is_digit s)"

definition version_grammar :: "string \<Rightarrow> bool" where
  "version_grammar s =
     (case s of
        [] \<Rightarrow> False
      | c # r \<Rightarrow>
          c = CHR ''v'' \<and>
          (let a = takeWhile (\<lambda>x. x \<noteq> CHR ''.'') r; r1 = dropWhile (\<lambda>x. x \<noteq> CHR ''.'') r in
           is_number a \<and>
           (case r1 of
              [] \<Rightarrow> False
            | _ # r2 \<Rightarrow>
                (let b = takeWhile (\<lambda>x. x \<noteq> CHR ''.'') r2;
                     r3 = dropWhile (\<lambda>x. x \<noteq> CHR ''.'') r2 in
                 is_number b \<and> (case r3 of [] \<Rightarrow> False | _ # r4 \<Rightarrow> is_number r4)))))"

section \<open>Loading by file name (core/data/io.h)\<close>

text \<open>
  \<^verbatim>\<open>auto_load\<close> picks the file class it hands to \<^verbatim>\<open>load_dataset\<close> by
  \<^verbatim>\<open>filename.ends_with\<close>; reading the file is the work of that class and is not
  modelled, the choice is.
\<close>

datatype file_type = NativeFile | VecsFile | BinaryFile

definition ends_with :: "string \<Rightarrow> string \<Rightarrow> bool" where
  "ends_with s suffix =
     (length suffix \<le> length s \<and> drop (length s - length suffix) s = suffix)"

definition auto_load :: "string \<Rightarrow> error + file_type" where
  "auto_load filename =
     (if ends_with filename ''svs'' then Inr NativeFile
      else if ends_with filename ''vecs'' then Inr VecsFile
      else if ends_with filename ''bin'' then Inr BinaryFile
      else Inl (UnknownFileExtension filename))"

text \<open>
  The file extension in the usual sense, for comparison: what follows the last dot of
  the last path component, the dot included; empty when that component has no dot.
\<close>

definition extension :: "string \<Rightarrow> string" where
  "extension f =
     (let name = rev (takeWhile (\<lambda>c. c \<noteq> CHR ''/'') (rev f)) in
      if CHR ''.'' \<in> set name
      then CHR ''.'' # rev (takeWhile (\<lambda>c. c \<noteq> CHR ''.'') (rev name))
      else [])"

section \<open>Compaction (core/compact.h)\<close>

text \<open>
  The two bodies handed to \<^verbatim>\<open>threads::run\<close>: the first copies
  \<^verbatim>\<open>data[new_to_old[batch_to_new[batch_id]]]\<close> into \<^verbatim>\<open>buffer[batch_id]\<close>, the second
  copies \<^verbatim>\<open>buffer[batch_id]\<close> into \<^verbatim>\<open>data[batch_to_new[batch_id]]\<close>, where
  \<^verbatim>\<open>batch_to_new[i]\<close> is \<open>start + i\<close>. The state is the pair of the data and the
  buffer, two separate objects. The \<^verbatim>\<open>assert\<close> that \<open>new_to_old\<close> is sorted is
  compiled out of a release build and is not part of the model. Sizes and indices are
  natural numbers: \<open>start + batchsize\<close> adds the sizes of two containers in memory
  and stays inside the range of \<^verbatim>\<open>size_t\<close>.
\<close>

definition copy_to_buffer ::
  "nat list \<Rightarrow> nat \<Rightarrow> nat \<Rightarrow> 'a dataset \<times> 'a dataset \<Rightarrow> error + 'a dataset \<times> 'a dataset" where
  "copy_to_buffer new_to_old start batch_id s =
     (case s of (data, buffer) \<Rightarrow>
        (let old_id = new_to_old ! (start + batch_id) in
         (case get_datum data old_id of
            Inl e \<Rightarrow> Inl e
          | Inr v \<Rightarrow> (case set_datum buffer batch_id v of
                        Inl e \<Rightarrow> Inl e
                      | Inr buffer' \<Rightarrow> Inr (data, buffer')))))"

definition copy_from_buffer ::
  "nat \<Rightarrow> nat \<Rightarrow> 'a dataset \<times> 'a dataset \<Rightarrow> error + 'a dataset \<times> 'a dataset" where
  "copy_from_buffer start batch_id s =
     (case s of (data, buffer) \<Rightarrow>
        (let new_id = start + batch_id in
         (case get_datum buffer batch_id of
            Inl e \<Rightarrow> Inl e
          | Inr v \<Rightarrow> (case set_datum data new_id v of
                        Inl e \<Rightarrow> Inl e
                      | Inr data' \<Rightarrow> Inr (data', buffer)))))"

text \<open>
  The \<^verbatim>\<open>while (start < end)\<close> loop. Nothing in it makes \<open>stop\<close> larger than
  \<open>start\<close> when the buffer is empty, so the loop is a partial function: \<open>None\<close>
  means that it does not return.
\<close>

text \<open>
  Modelled from the spec: \<^verbatim>\<open>threads::run\<close> over a \<^verbatim>\<open>threads::StaticPartition\<close>
  (lib/threads.h is not among the sources) calls the body on ranges that ``collectively
  cover the index range exactly once'' and ``returns only after every slice has been
  processed''. The iterations of one call write distinct slots of one dataset and read
  the other dataset only, so each call is a loop over \<open>this_batch\<close> in index order.
\<close>

partial_function (option) compact_loop ::
  "nat list \<Rightarrow> nat \<Rightarrow> nat \<Rightarrow> nat \<Rightarrow> 'a dataset \<times> 'a dataset
     \<Rightarrow> (error option \<times> 'a dataset \<times> 'a dataset) option" where
  "compact_loop new_to_old batchsize start end s =
     (if start < end then
        (let stop = min (start + batchsize) end;
             this_batch = [0..<stop - start] in
         (case for_each this_batch (copy_to_buffer new_to_old start) s of
            (Some e, s1) \<Rightarrow> Some (Some e, s1)
          | (None, s1) \<Rightarrow>
              (case for_each this_batch (copy_from_buffer start) s1 of
                 (Some e, s2) \<Rightarrow> Some (Some e, s2)
               | (None, s2) \<Rightarrow> compact_loop new_to_old batchsize stop end s2)))
      else Some (None, s))"

declare compact_loop.simps [code]

definition compact_data ::
  "'a dataset \<Rightarrow> 'a dataset \<Rightarrow> nat list \<Rightarrow> (error option \<times> 'a dataset \<times> 'a dataset) option" where
  "compact_data data buffer new_to_old =
     (let data_dims = dimensions data; buffer_dims = dimensions buffer in
      if data_dims \<noteq> buffer_dims
      then Some (Some (DimsMismatch data_dims buffer_dims), data, buffer)
      else compact_loop new_to_old (size_of buffer) 0 (length new_to_old) (data, buffer))"

text \<open>
  What one window of the loop leaves in the data: the slots \<open>start, \<dots>, start + b - 1\<close>
  hold the entries that were at \<open>nto ! start, \<dots>\<close> when the window began.
\<close>

definition window_entries :: "nat list \<Rightarrow> nat \<Rightarrow> nat \<Rightarrow> 'a list \<Rightarrow> 'a list" where
  "window_entries nto start b es =
     take start es @ map (\<lambda>j. es ! (nto ! (start + j))) [0..<b] @ drop (start + b) es"

section \<open>Flat index (index/flat/flat.h)\<close>

text \<open>
  The members of \<^verbatim>\<open>FlatIndex\<close> that steer the iteration, named by their getters:
  \<^verbatim>\<open>data_batch_size_\<close>, \<^verbatim>\<open>query_batch_size_\<close> and the size of \<^verbatim>\<open>threadpool_\<close>. Sizes
  and indices are natural numbers: every sum the search forms is bounded by twice the
  larger of the dataset size and 100000, far from the range of \<^verbatim>\<open>size_t\<close>.
\<close>

record flat_config =
  get_data_batch_size :: nat
  get_query_batch_size :: nat
  get_num_threads :: nat

definition default_data_batch_size :: nat where
  "default_data_batch_size = 100000"

definition compute_data_batch_size :: "flat_config \<Rightarrow> nat \<Rightarrow> nat" where
  "compute_data_batch_size cfg data_size =
     (if get_data_batch_size cfg = 0 then default_data_batch_size
      else min (get_data_batch_size cfg) data_size)"

text \<open>
  Modelled from the spec: \<^verbatim>\<open>lib::div_round_up\<close> (lib/misc.h is not among the sources),
  the quotient rounded up, as in ``auto \<open>\<rightarrow>\<close> \<open>\<lceil>Q / num_workers\<rceil>\<close>''.
\<close>

definition div_round_up :: "nat \<Rightarrow> nat \<Rightarrow> nat" where
  "div_round_up n d = n div d + (if n mod d = 0 then 0 else 1)"

definition compute_query_batch_size :: "flat_config \<Rightarrow> nat \<Rightarrow> nat" where
  "compute_query_batch_size cfg num_queries =
     (if get_query_batch_size cfg = 0 then div_round_up num_queries (get_num_threads cfg)
      else get_query_batch_size cfg)"

text \<open>
  Modelled from the spec: \<^verbatim>\<open>BulkInserter\<close> (index/flat/inserters.h is not among the
  sources), ``logically a collection of Q independent bounded heaps'' where an insert
  is ``pure on the qi-th heap only''. The search is written over any such sorter: what
  one heap is after \<^verbatim>\<open>prepare()\<close> for a given number of neighbors, what an insert
  makes of one heap, and what \<^verbatim>\<open>result(i)[j]\<close> reads from a heap after \<^verbatim>\<open>cleanup()\<close>.
\<close>

record ('s, 'h, 'r) sorter =
  sorter_prepare :: "nat \<Rightarrow> 'h"
  sorter_insert :: "nat \<times> 's \<Rightarrow> 'h \<Rightarrow> 'h"
  sorter_result :: "'h \<Rightarrow> nat \<Rightarrow> 'r"

definition bulk_prepare :: "('s, 'h, 'r) sorter \<Rightarrow> nat \<Rightarrow> nat \<Rightarrow> 'h list" where
  "bulk_prepare srt num_queries num_neighbors =
     replicate num_queries (sorter_prepare srt num_neighbors)"

definition bulk_insert :: "('s, 'h, 'r) sorter \<Rightarrow> nat \<Rightarrow> nat \<times> 's \<Rightarrow> 'h list \<Rightarrow> 'h list" where
  "bulk_insert srt query_index neighbor scratch =
     scratch[query_index := sorter_insert srt neighbor (scratch ! query_index)]"

text \<open>
  Modelled from the spec: \<^verbatim>\<open>threads::DynamicPartition\<close> and \<^verbatim>\<open>threads::run\<close>
  (lib/threads.h is not among the sources). The dynamic partition ``splits \<open>[0, N)\<close>
  into fixed-size chunks of \<open>chunk_size\<close>''; a range is the pair of its first index
  and the index after its last, as \<^verbatim>\<open>threads::UnitRange\<close>. \<^verbatim>\<open>run\<close> ``invokes \<open>fn\<close>
  on each slice produced by the partition, where slices collectively cover the index
  range exactly once'', returns when all are done, and promises no order among the
  slices. A schedule is the order in which the slices of the call for one data tile are
  executed; \<open>each_slice_once\<close> says that it is a rearrangement of the slices.
  Slices of different workers touch the heaps of different queries, so a run of the
  workers side by side leaves what some such order leaves; the model executes the slices
  one after another.
\<close>

definition chunks :: "nat \<Rightarrow> nat \<Rightarrow> (nat \<times> nat) list" where
  "chunks n c = map (\<lambda>j. (j * c, min n (j * c + c))) [0..<div_round_up n c]"

definition dynamic_partition :: "nat \<Rightarrow> nat \<Rightarrow> (nat \<times> nat) list" where
  "dynamic_partition n chunk_size = chunks n chunk_size"

type_synonym schedule = "nat \<times> nat \<Rightarrow> (nat \<times> nat) list \<Rightarrow> (nat \<times> nat) list"

definition each_slice_once :: "schedule \<Rightarrow> bool" where
  "each_slice_once sched = (\<forall>tile slices. mset (sched tile slices) = mset slices)"

text \<open>
  \<^verbatim>\<open>search_patch\<close>: the data indices of the tile in ascending order, the predicate,
  and for each admitted datum the queries of the slice. \<open>dist q x\<close> is what
  \<^verbatim>\<open>distance::compute\<close> returns for the functor fixed on the query \<open>q\<close> and the datum
  \<open>x\<close>. Every index used is inside its dataset: tiles lie in \<open>[0, data.size())\<close> and
  slices in \<open>[0, queries.size())\<close>.
\<close>

definition search_patch ::
  "('s, 'h, 'r) sorter \<Rightarrow> ('q \<Rightarrow> 'v \<Rightarrow> 's) \<Rightarrow> 'v dataset \<Rightarrow> 'q dataset \<Rightarrow> nat \<times> nat
     \<Rightarrow> nat \<times> nat \<Rightarrow> (nat \<Rightarrow> bool) \<Rightarrow> 'h list \<Rightarrow> 'h list" where
  "search_patch srt dist data queries data_indices query_indices predicate scratch =
     fold (\<lambda>data_index scratch.
             if \<not> predicate data_index then scratch
             else (let datum = entries data ! data_index in
                   fold (\<lambda>i scratch.
                           (let query_index = fst query_indices + i;
                                d = dist (entries queries ! query_index) datum in
                            bulk_insert srt query_index (data_index, d) scratch))
                        [0..<snd query_indices - fst query_indices] scratch))
          [fst data_indices..<snd data_indices] scratch"

definition search_subset ::
  "('s, 'h, 'r) sorter \<Rightarrow> ('q \<Rightarrow> 'v \<Rightarrow> 's) \<Rightarrow> flat_config \<Rightarrow> schedule \<Rightarrow> 'v dataset
     \<Rightarrow> 'q dataset \<Rightarrow> nat \<times> nat \<Rightarrow> (nat \<Rightarrow> bool) \<Rightarrow> 'h list \<Rightarrow> 'h list" where
  "search_subset srt dist cfg sched data queries data_indices predicate scratch =
     fold (\<lambda>query_indices scratch.
             search_patch srt dist data queries data_indices query_indices predicate scratch)
          (sched data_indices
             (dynamic_partition (size_of queries)
                (compute_query_batch_size cfg (size_of queries))))
          scratch"

text \<open>
  The \<^verbatim>\<open>while (start < data_.size())\<close> loop of \<^verbatim>\<open>search\<close>, as the list of the
  ranges \<open>[start, stop)\<close> it hands to \<^verbatim>\<open>search_subset\<close>, in order. A batch size of 0
  with a non-empty dataset would never advance \<open>start\<close>: \<open>None\<close> means that the loop
  does not return.
\<close>

partial_function (option) data_tiles :: "nat \<Rightarrow> nat \<Rightarrow> nat \<Rightarrow> (nat \<times> nat) list option" where
  "data_tiles data_max_size batch_size start =
     (if start < data_max_size then
        (let stop = min data_max_size (start + batch_size) in
         Option.bind (data_tiles data_max_size batch_size stop)
           (\<lambda>tiles. Some ((start, stop) # tiles)))
      else Some [])"

declare data_tiles.simps [code]

text \<open>
  \<^verbatim>\<open>search\<close>: prepare the sorter, run \<^verbatim>\<open>search_subset\<close> on every tile, and write
  \<^verbatim>\<open>result(i)[j]\<close> for every query \<open>i\<close> and every \<open>j\<close> below \<open>num_neighbors\<close>
  into row \<open>i\<close> of the result.
\<close>

definition search ::
  "('s, 'h, 'r) sorter \<Rightarrow> ('q \<Rightarrow> 'v \<Rightarrow> 's) \<Rightarrow> flat_config \<Rightarrow> schedule \<Rightarrow> 'v dataset
     \<Rightarrow> 'q dataset \<Rightarrow> nat \<Rightarrow> (nat \<Rightarrow> bool) \<Rightarrow> 'r list list option" where
  "search srt dist cfg sched data queries num_neighbors predicate =
     (let data_max_size = size_of data;
          data_batch_size = compute_data_batch_size cfg (size_of data);
          scratch = bulk_prepare srt (size_of queries) num_neighbors in
      (case data_tiles data_max_size data_batch_size 0 of
         None \<Rightarrow> None
       | Some tiles \<Rightarrow>
          (let scratch = fold (\<lambda>tile scratch.
                                 search_subset srt dist cfg sched data queries tile predicate
                                   scratch)
                              tiles scratch in
           Some (map (\<lambda>i. map (\<lambda>j. sorter_result srt (scratch ! i) j) [0..<num_neighbors])
                     [0..<size_of queries]))))"

text \<open>
  For comparison, the search of one thread without tiling: each query has its own heap
  and sees the data indices \<open>0, \<dots>, N - 1\<close> once, in this order.
\<close>

definition heap_step ::
  "('s, 'h, 'r) sorter \<Rightarrow> ('q \<Rightarrow> 'v \<Rightarrow> 's) \<Rightarrow> 'v dataset \<Rightarrow> 'q \<Rightarrow> (nat \<Rightarrow> bool) \<Rightarrow> nat
     \<Rightarrow> 'h \<Rightarrow> 'h" where
  "heap_step srt dist data q predicate d h =
     (if predicate d then sorter_insert srt (d, dist q (entries data ! d)) h else h)"

definition reference_heap ::
  "('s, 'h, 'r) sorter \<Rightarrow> ('q \<Rightarrow> 'v \<Rightarrow> 's) \<Rightarrow> 'v dataset \<Rightarrow> 'q \<Rightarrow> nat \<Rightarrow> (nat \<Rightarrow> bool)
     \<Rightarrow> 'h" where
  "reference_heap srt dist data q num_neighbors predicate =
     fold (heap_step srt dist data q predicate) [0..<size_of data]
       (sorter_prepare srt num_neighbors)"

definition reference_search ::
  "('s, 'h, 'r) sorter \<Rightarrow> ('q \<Rightarrow> 'v \<Rightarrow> 's) \<Rightarrow> 'v dataset \<Rightarrow> 'q dataset \<Rightarrow> nat
     \<Rightarrow> (nat \<Rightarrow> bool) \<Rightarrow> 'r list list" where
  "reference_search srt dist data queries num_neighbors predicate =
     map (\<lambda>q. map (sorter_result srt (reference_heap srt dist data q num_neighbors predicate))
                 [0..<num_neighbors])
         (entries queries)"

subsection \<open>The top-k sorter\<close>

text \<open>
  Modelled from the spec: the heaps of \<^verbatim>\<open>BulkInserter\<close> (index/flat/inserters.h is not
  among the sources). A heap has \<open>k\<close> slots, after \<^verbatim>\<open>prepare()\<close> ``all heaps contain
  k sentinels whose score is the comparator's worst element'' (\<open>None\<close> here), an insert
  does ``conditionally replace worst'', and after \<^verbatim>\<open>cleanup()\<close> the result is ``sorted
  best-first by the comparator'' with ``ties broken by lower id first''. The slots are
  kept in this order throughout, so that an insert puts the neighbor in its place and
  drops the last slot, and \<^verbatim>\<open>cleanup()\<close> has nothing left to do. \<open>cmp a b\<close> is the
  comparator of the distance: the score \<open>a\<close> is better than \<open>b\<close>.
\<close>

definition nb_better :: "('s \<Rightarrow> 's \<Rightarrow> bool) \<Rightarrow> nat \<times> 's \<Rightarrow> nat \<times> 's \<Rightarrow> bool" where
  "nb_better cmp a b = (cmp (snd a) (snd b) \<or> (\<not> cmp (snd b) (snd a) \<and> fst a < fst b))"

definition slot_better ::
  "('s \<Rightarrow> 's \<Rightarrow> bool) \<Rightarrow> (nat \<times> 's) option \<Rightarrow> (nat \<times> 's) option \<Rightarrow> bool" where
  "slot_better cmp x y =
     (case x of None \<Rightarrow> False
      | Some a \<Rightarrow> (case y of None \<Rightarrow> True | Some b \<Rightarrow> nb_better cmp a b))"

fun insert_sorted :: "('a \<Rightarrow> 'a \<Rightarrow> bool) \<Rightarrow> 'a \<Rightarrow> 'a list \<Rightarrow> 'a list" where
  "insert_sorted lt x [] = [x]"
| "insert_sorted lt x (y # ys) = (if lt x y then x # y # ys else y # insert_sorted lt x ys)"

definition heap_insert ::
  "('s \<Rightarrow> 's \<Rightarrow> bool) \<Rightarrow> nat \<times> 's \<Rightarrow> (nat \<times> 's) option list \<Rightarrow> (nat \<times> 's) option list" where
  "heap_insert cmp neighbor heap =
     take (length heap) (insert_sorted (slot_better cmp) (Some neighbor) heap)"

definition heap_sorter ::
  "('s \<Rightarrow> 's \<Rightarrow> bool) \<Rightarrow> ('s, (nat \<times> 's) option list, (nat \<times> 's) option) sorter" where
  "heap_sorter cmp =
     \<lparr>sorter_prepare = (\<lambda>k. replicate k None),
      sorter_insert = heap_insert cmp,
      sorter_result = (\<lambda>heap j. heap ! j)\<rparr>"

text \<open>
  What the specification asks of a comparator (it ``totally orders scores by better
  first''): a strict order in which being neither better nor worse is transitive, as
  \<open><\<close> and \<open>>\<close> are on numbers.
\<close>

definition strict_weak_order :: "('s \<Rightarrow> 's \<Rightarrow> bool) \<Rightarrow> bool" where
  "strict_weak_order cmp =
     ((\<forall>a. \<not> cmp a a) \<and>
      (\<forall>a b c. cmp a b \<longrightarrow> cmp b c \<longrightarrow> cmp a c) \<and>
      (\<forall>a b c. \<not> cmp a b \<longrightarrow> \<not> cmp b c \<longrightarrow> \<not> cmp a c))"

text \<open>
  The exactness property in the words of the specification. The candidates of a query
  are the ids in \<open>[0, N)\<close> that pass the predicate, each with its score. A row of \<open>k\<close>
  slots holds the \<open>k\<close> best of them when its first \<open>min k (number of candidates)\<close>
  slots are distinct candidates in strictly best-first order (better score first, lower
  id first among scores none of which is better), every candidate left out is worse than
  every one in the row, and the remaining slots are sentinels.
\<close>

definition candidates ::
  "('q \<Rightarrow> 'v \<Rightarrow> 's) \<Rightarrow> 'v dataset \<Rightarrow> 'q \<Rightarrow> (nat \<Rightarrow> bool) \<Rightarrow> (nat \<times> 's) list" where
  "candidates dist data q predicate =
     map (\<lambda>d. (d, dist q (entries data ! d))) (filter predicate [0..<size_of data])"

definition is_k_best ::
  "('s \<Rightarrow> 's \<Rightarrow> bool) \<Rightarrow> nat \<Rightarrow> (nat \<times> 's) list \<Rightarrow> (nat \<times> 's) option list \<Rightarrow> bool" where
  "is_k_best cmp k cands row =
     (length row = k \<and>
      (let m = min k (length cands); best = map the (take m row) in
       take m row = map Some best \<and>
       drop m row = replicate (k - m) None \<and>
       distinct best \<and>
       list_all (\<lambda>y. y \<in> set cands) best \<and>
       sorted_wrt (nb_better cmp) best \<and>
       list_all (\<lambda>x. x \<in> set best \<or> list_all (\<lambda>y. nb_better cmp y x) best) cands))"

definition pad :: "nat \<Rightarrow> 'a list \<Rightarrow> 'a option list" where
  "pad k xs = map Some xs @ replicate (k - length xs) None"

section \<open>Properties of the loops over datasets\<close>

lemma for_each_append:
  "for_each (xs @ ys) body s =
     (case for_each xs body s of
        (Some e, s') \<Rightarrow> (Some e, s')
      | (None, s') \<Rightarrow> for_each ys body s')"
  by (induction xs arbitrary: s) (auto split: sum.splits)

lemma copy_loop:
  assumes "n \<le> size_of input" "size_of input = size_of out"
  shows "for_each [0..<n] (\<lambda>i out. case get_datum input i of
                                      Inl e \<Rightarrow> Inl e
                                    | Inr v \<Rightarrow> set_datum out i v) out
         = (None, out\<lparr>entries := take n (entries input) @ drop n (entries out)\<rparr>)"
  using assms
proof (induction n)
  case 0
  then show ?case by simp
next
  case (Suc n)
  have len: "n < length (entries input)" "n < length (entries out)"
    using Suc.prems by (simp_all add: size_of_def)
  have upd: "(take n (entries input) @ drop n (entries out))[n := entries input ! n]
             = take (Suc n) (entries input) @ drop (Suc n) (entries out)"
    using len
    by (simp add: list_update_append take_Suc_conv_app_nth upd_conv_take_nth_drop
        flip: Cons_nth_drop_Suc)
  show ?case
    using Suc len upd
    by (simp add: for_each_append get_datum_def set_datum_def size_of_def)
qed

text \<open>
  C10: \<^verbatim>\<open>data::copy\<close> throws when the two sizes differ and leaves the output as it
  was; when they agree it returns normally, the output keeps its size and its number
  of dimensions, and its entry at every index below \<open>input.size()\<close> is the entry of
  the input at that index.
\<close>

theorem copy_correct:
  "(size_of inp \<noteq> size_of outp \<longrightarrow>
      copy inp outp = (Some (SizeMismatch (size_of inp) (size_of outp)), outp)) \<and>
   (size_of inp = size_of outp \<longrightarrow>
      (\<exists>out'. copy inp outp = (None, out') \<and>
              size_of out' = size_of outp \<and>
              dimensions out' = dimensions outp \<and>
              (\<forall>i. i < size_of inp \<longrightarrow> get_datum out' i = get_datum inp i)))"
proof (intro conjI impI)
  assume "size_of inp \<noteq> size_of outp"
  then show "copy inp outp = (Some (SizeMismatch (size_of inp) (size_of outp)), outp)"
    by (simp add: copy_def)
next
  assume eq: "size_of inp = size_of outp"
  have "copy inp outp = (None, outp\<lparr>entries := entries inp\<rparr>)"
    using copy_loop [of "size_of inp" inp outp] eq
    by (simp add: copy_def size_of_def)
  then show "\<exists>out'. copy inp outp = (None, out') \<and>
              size_of out' = size_of outp \<and>
              dimensions out' = dimensions outp \<and>
              (\<forall>i. i < size_of inp \<longrightarrow> get_datum out' i = get_datum inp i)"
    using eq by (simp add: size_of_def get_datum_def)
qed

theorem copy_correct_witness:
  "copy \<lparr>dimensions = 1, entries = [[1::int], [2]]\<rparr> \<lparr>dimensions = 1, entries = [[7], [8]]\<rparr>
     = (None, \<lparr>dimensions = 1, entries = [[1], [2]]\<rparr>) \<and>
   copy \<lparr>dimensions = 1, entries = [[1::int], [2]]\<rparr> \<lparr>dimensions = 1, entries = [[7]]\<rparr>
     = (Some (SizeMismatch 2 1), \<lparr>dimensions = 1, entries = [[7]]\<rparr>)"
  using copy_correct [of "\<lparr>dimensions = 1, entries = [[1::int], [2]]\<rparr>"
                         "\<lparr>dimensions = 1, entries = [[7], [8]]\<rparr>"]
        copy_correct [of "\<lparr>dimensions = 1, entries = [[1::int], [2]]\<rparr>"
                         "\<lparr>dimensions = 1, entries = [[7]]\<rparr>"]
  by (simp add: size_of_def copy_def get_datum_def set_datum_def upt_rec)

section \<open>Properties of the version parser\<close>

lemma is_digit_digit_char: "d < 10 \<Longrightarrow> is_digit (digit_char d)"
  by (simp add: is_digit_def digit_char_def)

lemma digit_value_digit_char: "d < 10 \<Longrightarrow> digit_value (digit_char d) = d"
  by (simp add: digit_value_def digit_char_def)

lemma to_decimal_small: "n < 10 \<Longrightarrow> to_decimal n = [digit_char n]"
  by (subst to_decimal.simps) simp

lemma to_decimal_large:
  "\<not> n < 10 \<Longrightarrow> to_decimal n = to_decimal (n div 10) @ [digit_char (n mod 10)]"
  by (subst to_decimal.simps) simp

lemma to_decimal_digits: "c \<in> set (to_decimal n) \<Longrightarrow> is_digit c"
proof (induction n arbitrary: c rule: to_decimal.induct)
  case (1 n)
  show ?case
  proof (cases "n < 10")
    case True
    with 1 show ?thesis by (simp add: to_decimal_small is_digit_digit_char)
  next
    case False
    with 1 show ?thesis by (auto simp: to_decimal_large is_digit_digit_char)
  qed
qed

lemma to_decimal_nonempty: "to_decimal n \<noteq> []"
  by (cases "n < 10") (simp_all add: to_decimal_small to_decimal_large)

lemma digits_value_to_decimal: "digits_value (to_decimal n) = n"
proof (induction n rule: to_decimal.induct)
  case (1 n)
  show ?case
  proof (cases "n < 10")
    case True
    then show ?thesis by (simp add: to_decimal_small digits_value_def digit_value_digit_char)
  next
    case False
    with 1 have "digits_value (to_decimal (n div 10)) = n div 10" by simp
    with False show ?thesis
      by (simp add: to_decimal_large digits_value_def digit_value_digit_char)
  qed
qed

lemma dot_not_digit: "\<not> is_digit CHR ''.''"
  by (simp add: is_digit_def)

lemma takeWhile_to_decimal_end:
  "takeWhile is_digit (to_decimal n) = to_decimal n"
  by (simp add: takeWhile_eq_all_conv to_decimal_digits)

lemma index_of_append: "c \<notin> set xs \<Longrightarrow> index_of c (xs @ c # ys) = Some (length xs)"
  by (induction xs) auto

lemma dot_notin_to_decimal: "CHR ''.'' \<notin> set (to_decimal n)"
  using to_decimal_digits dot_not_digit by blast

lemma parse_int_to_decimal:
  "parse_int (to_decimal (unat (w :: size_t))) = Inr w"
proof -
  have "unat w < 2 ^ 64" using unsigned_less [of w] by simp
  then show ?thesis
    using digits_value_to_decimal [of "unat w"]
    by (simp add: parse_int_def from_chars_def takeWhile_to_decimal_end to_decimal_nonempty)
qed

text \<open>
  C9: formatting a version and parsing the string gives the version back, for every
  triple of \<^verbatim>\<open>size_t\<close> members.
\<close>

theorem Version_str_roundtrip: "Version (str v) = Inr v"
proof -
  define a where "a = to_decimal (unat (major v))"
  define b where "b = to_decimal (unat (minor v))"
  define c where "c = to_decimal (unat (patch v))"
  have s: "str v = CHR ''v'' # a @ CHR ''.'' # b @ CHR ''.'' # c"
    by (simp add: str_def a_def b_def c_def)
  have q: "parse_int a = Inr (major v)" "parse_int b = Inr (minor v)"
      "parse_int c = Inr (patch v)"
    by (simp_all add: a_def b_def c_def parse_int_to_decimal)
  have nd: "CHR ''.'' \<notin> set a" "CHR ''.'' \<notin> set b"
    by (simp_all add: a_def b_def dot_notin_to_decimal)
  show ?thesis
    unfolding Version_def s
    by (simp add: starts_with_def find_char_def substr_def index_of_append nd q)
qed

text \<open>
  The examples of the specification: two well-formed strings, and the three malformed
  ones, each stopped by a different check.
\<close>

lemma Version_examples:
  "Version ''v1.2.3'' = Inr \<lparr>major = 1, minor = 2, patch = 3\<rparr>"
  "Version ''v10.0.100'' = Inr \<lparr>major = 10, minor = 0, patch = 100\<rparr>"
  "Version ''1.2.3'' = Inl NoLeadingV"
  "Version ''v1.2'' = Inl MalformedVersion"
  "Version ''v1.2.x'' = Inl NumberParsing"
  by (simp_all add: Version_def starts_with_def find_char_def substr_def parse_int_def
      from_chars_def digits_value_def is_digit_def digit_value_def)

text \<open>
  C4: the parser does not accept exactly the grammar. \<^verbatim>\<open>parse_int\<close> never checks that
  \<^verbatim>\<open>from_chars\<close> consumed its whole argument, so characters after the digits of a
  component are dropped: \<open>v1.2.3x\<close> is not of the form \<open>v{major}.{minor}.{patch}\<close>,
  and it parses to \<open>(1, 2, 3)\<close> without an error.
\<close>

theorem Version_accepts_trailing_characters:
  "Version ''v1.2.3x'' = Inr \<lparr>major = 1, minor = 2, patch = 3\<rparr> \<and>
   \<not> version_grammar ''v1.2.3x''"
  by (simp add: Version_def starts_with_def find_char_def substr_def parse_int_def
      from_chars_def digits_value_def is_digit_def digit_value_def version_grammar_def
      is_number_def)

section \<open>Properties of the loader dispatch\<close>

lemma extension_is_suffix:
  assumes "extension f = CHR ''.'' # x"
  shows "\<exists>p. f = p @ CHR ''.'' # x"
proof -
  define name where "name = rev (takeWhile (\<lambda>c. c \<noteq> CHR ''/'') (rev f))"
  have f: "f = rev (dropWhile (\<lambda>c. c \<noteq> CHR ''/'') (rev f)) @ name"
    unfolding name_def by (simp flip: rev_append)
  from assms have dot: "CHR ''.'' \<in> set name"
    and x: "x = rev (takeWhile (\<lambda>c. c \<noteq> CHR ''.'') (rev name))"
    by (auto simp: extension_def Let_def name_def [symmetric] split: if_splits)
  let ?d = "dropWhile (\<lambda>c. c \<noteq> CHR ''.'') (rev name)"
  from dot have "?d \<noteq> []" by auto
  then obtain y ys where d: "?d = y # ys" by (cases ?d) auto
  then have "y = CHR ''.''"
    using hd_dropWhile [of "\<lambda>c. c \<noteq> CHR ''.''" "rev name"] by simp
  with d have "rev name = takeWhile (\<lambda>c. c \<noteq> CHR ''.'') (rev name) @ CHR ''.'' # ys"
    using takeWhile_dropWhile_id [of "\<lambda>c. c \<noteq> CHR ''.''" "rev name"] by simp
  then have "rev (rev name) = rev (takeWhile (\<lambda>c. c \<noteq> CHR ''.'') (rev name) @ CHR ''.'' # ys)"
    by simp
  then have "name = rev ys @ CHR ''.'' # x"
    by (simp add: x)
  with f have "f = (rev (dropWhile (\<lambda>c. c \<noteq> CHR ''/'') (rev f)) @ rev ys) @ CHR ''.'' # x"
    by simp
  then show ?thesis by blast
qed

lemma auto_load_svs: "extension f = ''.svs'' \<Longrightarrow> auto_load f = Inr NativeFile"
  by (drule extension_is_suffix) (auto simp: auto_load_def ends_with_def)

lemma auto_load_bin: "extension f = ''.bin'' \<Longrightarrow> auto_load f = Inr BinaryFile"
  by (drule extension_is_suffix) (auto simp: auto_load_def ends_with_def)

lemma auto_load_vecs:
  "extension f = CHR ''.'' # x \<Longrightarrow> x \<in> {''vecs'', ''fvecs'', ''bvecs'', ''ivecs''}
     \<Longrightarrow> auto_load f = Inr VecsFile"
  by (drule extension_is_suffix) (auto simp: auto_load_def ends_with_def)

text \<open>
  C8 as the code has it: the three tests are on the end of the file name, in this
  order, and without the dot. A name with the extension \<open>.svs\<close> is loaded as a native
  file, one with \<open>.vecs\<close>, \<open>.fvecs\<close>, \<open>.bvecs\<close> or \<open>.ivecs\<close> as a vecs file, one
  with \<open>.bin\<close> as a DiskANN binary file, and every name that ends with none of
  \<open>svs\<close>, \<open>vecs\<close>, \<open>bin\<close> raises the error for an unknown file extension.
\<close>

theorem auto_load_dispatch:
  "(extension f = ''.svs'' \<longrightarrow> auto_load f = Inr NativeFile) \<and>
   (extension f \<in> {''.vecs'', ''.fvecs'', ''.bvecs'', ''.ivecs''} \<longrightarrow> auto_load f = Inr VecsFile) \<and>
   (extension f = ''.bin'' \<longrightarrow> auto_load f = Inr BinaryFile) \<and>
   (\<not> ends_with f ''svs'' \<and> \<not> ends_with f ''vecs'' \<and> \<not> ends_with f ''bin'' \<longrightarrow>
      auto_load f = Inl (UnknownFileExtension f))"
proof (intro conjI impI)
  assume "extension f = ''.svs''"
  then show "auto_load f = Inr NativeFile" by (rule auto_load_svs)
next
  assume "extension f \<in> {''.vecs'', ''.fvecs'', ''.bvecs'', ''.ivecs''}"
  then show "auto_load f = Inr VecsFile" using auto_load_vecs [of f] by auto
next
  assume "extension f = ''.bin''"
  then show "auto_load f = Inr BinaryFile" by (rule auto_load_bin)
next
  assume "\<not> ends_with f ''svs'' \<and> \<not> ends_with f ''vecs'' \<and> \<not> ends_with f ''bin''"
  then show "auto_load f = Inl (UnknownFileExtension f)" by (simp add: auto_load_def)
qed

theorem auto_load_dispatch_witness:
  "auto_load ''a/data.svs'' = Inr NativeFile \<and> auto_load ''a/data.vecs'' = Inr VecsFile \<and>
   auto_load ''a/data.bin'' = Inr BinaryFile \<and>
   auto_load ''a/data.txt'' = Inl (UnknownFileExtension ''a/data.txt'')"
  using auto_load_dispatch [of "''a/data.svs''"] auto_load_dispatch [of "''a/data.vecs''"]
    auto_load_dispatch [of "''a/data.bin''"] auto_load_dispatch [of "''a/data.txt''"]
  by (simp add: extension_def ends_with_def)

text \<open>
  The claim as stated fails: \<open>.fvecs\<close> is none of \<open>.svs\<close>, \<open>.vecs\<close>, \<open>.bin\<close>, and
  the file is loaded as a vecs file; \<open>cabin\<close> has no extension at all and is loaded as
  a binary file.
\<close>

theorem auto_load_counterexample:
  "extension ''data.fvecs'' = ''.fvecs'' \<and> auto_load ''data.fvecs'' = Inr VecsFile \<and>
   extension ''cabin'' = [] \<and> auto_load ''cabin'' = Inr BinaryFile"
  by (simp add: extension_def auto_load_def ends_with_def)

section \<open>Properties of compaction\<close>

lemma to_buffer_loop:
  assumes "n \<le> size_of buffer" "\<forall>j<n. nto ! (start + j) < size_of data"
  shows "for_each [0..<n] (copy_to_buffer nto start) (data, buffer)
         = (None, data, buffer\<lparr>entries := map (\<lambda>j. entries data ! (nto ! (start + j))) [0..<n]
                                              @ drop n (entries buffer)\<rparr>)"
  using assms
proof (induction n)
  case 0
  then show ?case by simp
next
  case (Suc n)
  have len: "n < length (entries buffer)" "nto ! (start + n) < length (entries data)"
    using Suc.prems by (simp_all add: size_of_def)
  show ?case
    using Suc len
    by (simp add: for_each_append copy_to_buffer_def get_datum_def set_datum_def size_of_def
        list_update_append flip: Cons_nth_drop_Suc)
qed

lemma from_buffer_loop:
  assumes "n \<le> size_of buffer" "start + n \<le> size_of data"
  shows "for_each [0..<n] (copy_from_buffer start) (data, buffer)
         = (None, data\<lparr>entries := take start (entries data) @ take n (entries buffer)
                                      @ drop (start + n) (entries data)\<rparr>, buffer)"
  using assms
proof (induction n)
  case 0
  then show ?case by simp
next
  case (Suc n)
  have len: "n < length (entries buffer)" "start + n < length (entries data)"
    using Suc.prems by (simp_all add: size_of_def)
  show ?case
    using Suc len
    by (simp add: for_each_append copy_from_buffer_def get_datum_def set_datum_def size_of_def
        list_update_append take_Suc_conv_app_nth flip: Cons_nth_drop_Suc)
qed

lemma window_entries_length:
  "start + b \<le> length es \<Longrightarrow> length (window_entries nto start b es) = length es"
  by (simp add: window_entries_def)

lemma window_entries_nth:
  assumes "start + b \<le> length es" "i < length es"
  shows "window_entries nto start b es ! i =
           (if start \<le> i \<and> i < start + b then es ! (nto ! i) else es ! i)"
proof -
  consider "i < start" | "start \<le> i" "i < start + b" | "start + b \<le> i" by linarith
  then show ?thesis
  proof cases
    case 1
    with assms show ?thesis by (simp add: window_entries_def nth_append)
  next
    case 2
    then have "i - start < b" "start + (i - start) = i" by simp_all
    with 2 assms show ?thesis by (simp add: window_entries_def nth_append)
  next
    case 3
    then have "\<not> i - start < b" "\<not> i < start" "start + b + (i - start - b) = i" by simp_all
    with 3 assms show ?thesis by (simp add: window_entries_def nth_append)
  qed
qed

lemma compact_window:
  assumes "b \<le> size_of buffer" "start + b \<le> size_of data"
    "\<forall>j<b. nto ! (start + j) < size_of data"
  shows "\<exists>buffer'. size_of buffer' = size_of buffer \<and>
           for_each [0..<b] (copy_to_buffer nto start) (data, buffer) = (None, data, buffer') \<and>
           for_each [0..<b] (copy_from_buffer start) (data, buffer')
             = (None, data\<lparr>entries := window_entries nto start b (entries data)\<rparr>, buffer')"
proof -
  let ?g = "\<lambda>j. entries data ! (nto ! (start + j))"
  let ?buffer' = "buffer\<lparr>entries := map ?g [0..<b] @ drop b (entries buffer)\<rparr>"
  have sz: "size_of ?buffer' = size_of buffer"
    using assms(1) by (simp add: size_of_def)
  have 1: "for_each [0..<b] (copy_to_buffer nto start) (data, buffer) = (None, data, ?buffer')"
    using assms by (rule_tac to_buffer_loop) auto
  have "for_each [0..<b] (copy_from_buffer start) (data, ?buffer')
          = (None, data\<lparr>entries := take start (entries data) @ take b (entries ?buffer')
                                      @ drop (start + b) (entries data)\<rparr>, ?buffer')"
    using assms sz by (intro from_buffer_loop) auto
  then have 2: "for_each [0..<b] (copy_from_buffer start) (data, ?buffer')
          = (None, data\<lparr>entries := window_entries nto start b (entries data)\<rparr>, ?buffer')"
    by (simp add: window_entries_def)
  from sz 1 2 show ?thesis by blast
qed

lemma compact_loop_total:
  assumes B: "0 < B" and M: "M = length nto" "M \<le> N" and valid: "\<forall>j<M. nto ! j < N"
  shows "start \<le> M \<Longrightarrow> size_of data = N \<Longrightarrow> size_of buffer = B \<Longrightarrow>
     \<exists>data' buffer'.
        compact_loop nto B start M (data, buffer) = Some (None, data', buffer') \<and>
        size_of data' = N \<and> dimensions data' = dimensions data \<and>
        (\<forall>i. M \<le> i \<and> i < N \<longrightarrow> entries data' ! i = entries data ! i) \<and>
        (\<forall>i < start. entries data' ! i = entries data ! i) \<and>
        ((\<forall>j<M. j \<le> nto ! j) \<longrightarrow>
           (\<forall>j. start \<le> j \<and> j < M \<longrightarrow> entries data' ! j = entries data ! (nto ! j)))"
proof (induction "M - start" arbitrary: start data buffer rule: less_induct)
  case less
  show ?case
  proof (cases "start < M")
    case False
    with less.prems show ?thesis
      by (subst compact_loop.simps) auto
  next
    case True
    define stop where "stop = min (start + B) M"
    define b where "b = stop - start"
    have stop: "start < stop" "stop \<le> M" "stop = start + b" "b \<le> B"
      using True B by (auto simp: stop_def b_def)
    have rd: "\<forall>j<b. nto ! (start + j) < size_of data"
      using valid stop less.prems by auto
    obtain buffer' where w: "size_of buffer' = size_of buffer"
      "for_each [0..<b] (copy_to_buffer nto start) (data, buffer) = (None, data, buffer')"
      "for_each [0..<b] (copy_from_buffer start) (data, buffer')
             = (None, data\<lparr>entries := window_entries nto start b (entries data)\<rparr>, buffer')"
      using compact_window [of b buffer start data nto] stop less.prems M rd by auto
    define data1 where "data1 = data\<lparr>entries := window_entries nto start b (entries data)\<rparr>"
    have len: "start + b \<le> length (entries data)"
      using stop less.prems M by (simp add: size_of_def)
    have d1: "size_of data1 = N" "dimensions data1 = dimensions data"
      using len less.prems by (simp_all add: data1_def size_of_def window_entries_length)
    have nth1: "\<And>i. i < N \<Longrightarrow> entries data1 ! i =
           (if start \<le> i \<and> i < stop then entries data ! (nto ! i) else entries data ! i)"
      using window_entries_nth [OF len] less.prems stop by (simp add: data1_def size_of_def)
    have step: "compact_loop nto B start M (data, buffer) = compact_loop nto B stop M (data1, buffer')"
      using True w
      by (subst compact_loop.simps) (simp add: stop_def [symmetric] b_def [symmetric] data1_def)
    have "M - stop < M - start" using stop True by linarith
    from less.hyps [OF this, of data1 buffer'] stop d1 w less.prems
    obtain data' buffer'' where r:
      "compact_loop nto B stop M (data1, buffer') = Some (None, data', buffer'')"
      "size_of data' = N" "dimensions data' = dimensions data1"
      "\<forall>i. M \<le> i \<and> i < N \<longrightarrow> entries data' ! i = entries data1 ! i"
      "\<forall>i < stop. entries data' ! i = entries data1 ! i"
      "(\<forall>j<M. j \<le> nto ! j) \<longrightarrow>
           (\<forall>j. stop \<le> j \<and> j < M \<longrightarrow> entries data' ! j = entries data1 ! (nto ! j))"
      by auto
    have f1: "\<forall>i. M \<le> i \<and> i < N \<longrightarrow> entries data' ! i = entries data ! i"
      using r(4) nth1 stop by auto
    have f2: "\<forall>i < start. entries data' ! i = entries data ! i"
      using r(5) nth1 stop M by auto
    have f3: "(\<forall>j<M. j \<le> nto ! j) \<longrightarrow>
           (\<forall>j. start \<le> j \<and> j < M \<longrightarrow> entries data' ! j = entries data ! (nto ! j))"
    proof (intro impI allI)
      fix j
      assume mono: "\<forall>j<M. j \<le> nto ! j" and j: "start \<le> j \<and> j < M"
      show "entries data' ! j = entries data ! (nto ! j)"
      proof (cases "j < stop")
        case True
        then have "entries data' ! j = entries data1 ! j" using r(5) by simp
        also have "\<dots> = entries data ! (nto ! j)" using nth1 [of j] j True M by simp
        finally show ?thesis .
      next
        case False
        then have "entries data' ! j = entries data1 ! (nto ! j)" using r(6) mono j by simp
        also have "\<dots> = entries data ! (nto ! j)"
          using nth1 [of "nto ! j"] valid mono j False by auto
        finally show ?thesis .
      qed
    qed
    show ?thesis
      using step r(1,2,3) d1 f1 f2 f3 by simp
  qed
qed

lemma for_each_to_buffer_error:
  "for_each is (copy_to_buffer nto start) s = (Some e, s') \<Longrightarrow> e = OutOfRange"
  by (induction "is" arbitrary: s)
     (auto simp: copy_to_buffer_def get_datum_def set_datum_def Let_def
           split: sum.splits if_splits prod.splits)

lemma for_each_from_buffer_error:
  "for_each is (copy_from_buffer start) s = (Some e, s') \<Longrightarrow> e = OutOfRange"
  by (induction "is" arbitrary: s)
     (auto simp: copy_from_buffer_def get_datum_def set_datum_def Let_def
           split: sum.splits if_splits prod.splits)

lemma compact_loop_error:
  assumes "compact_loop nto B start M s = Some r"
  shows "fst r = None \<or> fst r = Some OutOfRange"
proof (rule compact_loop.raw_induct [OF _ assms], goal_cases)
  case (1 loop nto B start M s r)
  note IH = 1(1) and eq = 1(2)
  show ?case
  proof (cases "start < M")
    case False
    with eq show ?thesis by auto
  next
    case True
    let ?b = "[0..<min (start + B) M - start]"
    obtain e1 s1 where p1: "for_each ?b (copy_to_buffer nto start) s = (e1, s1)"
      by (cases "for_each ?b (copy_to_buffer nto start) s") auto
    obtain e2 s2 where p2: "for_each ?b (copy_from_buffer start) s1 = (e2, s2)"
      by (cases "for_each ?b (copy_from_buffer start) s1") auto
    show ?thesis
    proof (cases e1)
      case (Some e)
      with p1 have "e = OutOfRange" by (auto dest: for_each_to_buffer_error)
      with eq True p1 Some show ?thesis by (auto simp: Let_def)
    next
      case None
      note n1 = None
      show ?thesis
      proof (cases e2)
        case (Some e)
        with p2 have "e = OutOfRange" by (auto dest: for_each_from_buffer_error)
        with eq True p1 p2 n1 Some show ?thesis by (auto simp: Let_def)
      next
        case None
        with eq True p1 p2 n1 have "loop nto B (min (start + B) M) M s2 = Some r"
          by (simp add: Let_def)
        then show ?thesis by (rule IH)
      qed
    qed
  qed
qed

lemma for_each_to_buffer_frame:
  "for_each is (copy_to_buffer nto start) (d, b) = (r, d', b') \<Longrightarrow>
     d' = d \<and> size_of b' = size_of b \<and> dimensions b' = dimensions b"
proof (induction "is" arbitrary: b)
  case Nil
  then show ?case by simp
next
  case (Cons i "is")
  show ?case
  proof (cases "copy_to_buffer nto start i (d, b)")
    case (Inl e)
    with Cons.prems show ?thesis by simp
  next
    case (Inr s1)
    then obtain b1 where s1: "s1 = (d, b1)" "size_of b1 = size_of b" "dimensions b1 = dimensions b"
      by (auto simp: copy_to_buffer_def Let_def get_datum_def set_datum_def size_of_def
          split: sum.splits if_splits)
    from Cons.prems Inr s1 have "for_each is (copy_to_buffer nto start) (d, b1) = (r, d', b')"
      by simp
    from Cons.IH [OF this] s1 show ?thesis by simp
  qed
qed

lemma for_each_from_buffer_frame:
  "for_each is (copy_from_buffer start) (d, b) = (r, d', b') \<Longrightarrow>
     b' = b \<and> size_of d' = size_of d \<and> dimensions d' = dimensions d \<and>
     (\<forall>i. (\<forall>j\<in>set is. i \<noteq> start + j) \<longrightarrow> entries d' ! i = entries d ! i)"
proof (induction "is" arbitrary: d)
  case Nil
  then show ?case by simp
next
  case (Cons k "is")
  show ?case
  proof (cases "copy_from_buffer start k (d, b)")
    case (Inl e)
    with Cons.prems show ?thesis by simp
  next
    case (Inr s1)
    then obtain d1 where s1: "s1 = (d1, b)" "size_of d1 = size_of d"
      "dimensions d1 = dimensions d" "\<forall>i. i \<noteq> start + k \<longrightarrow> entries d1 ! i = entries d ! i"
      by (auto simp: copy_from_buffer_def Let_def get_datum_def set_datum_def size_of_def
          split: sum.splits if_splits)
    from Cons.prems Inr s1 have "for_each is (copy_from_buffer start) (d1, b) = (r, d', b')"
      by simp
    from Cons.IH [OF this] s1 show ?thesis by simp
  qed
qed

lemma compact_loop_frame:
  assumes "compact_loop nto B start M s = Some res"
  shows "size_of (fst (snd res)) = size_of (fst s) \<and>
         dimensions (fst (snd res)) = dimensions (fst s) \<and>
         (\<forall>i. M \<le> i \<longrightarrow> entries (fst (snd res)) ! i = entries (fst s) ! i)"
proof (rule compact_loop.raw_induct [OF _ assms], goal_cases)
  case (1 loop nto B start M s res)
  note IH = 1(1) and eq = 1(2)
  show ?case
  proof (cases "start < M")
    case False
    with eq show ?thesis by auto
  next
    case True
    define stop where "stop = min (start + B) M"
    let ?b = "[0..<stop - start]"
    obtain d b where s: "s = (d, b)" by (cases s)
    obtain e1 d1 b1 where p1: "for_each ?b (copy_to_buffer nto start) (d, b) = (e1, d1, b1)"
      by (cases "for_each ?b (copy_to_buffer nto start) (d, b)") auto
    obtain e2 d2 b2 where p2: "for_each ?b (copy_from_buffer start) (d1, b1) = (e2, d2, b2)"
      by (cases "for_each ?b (copy_from_buffer start) (d1, b1)") auto
    from for_each_to_buffer_frame [OF p1] have d1: "d1 = d" by simp
    from for_each_from_buffer_frame [OF p2] d1
    have d2: "size_of d2 = size_of d" "dimensions d2 = dimensions d"
      "\<forall>i. (\<forall>j\<in>set ?b. i \<noteq> start + j) \<longrightarrow> entries d2 ! i = entries d ! i"
      by simp_all
    have far: "\<forall>i. M \<le> i \<longrightarrow> entries d2 ! i = entries d ! i"
    proof (intro allI impI)
      fix i assume "M \<le> i"
      then have "\<forall>j\<in>set ?b. i \<noteq> start + j" by (auto simp: stop_def)
      with d2(3) show "entries d2 ! i = entries d ! i" by blast
    qed
    show ?thesis
    proof (cases e1)
      case (Some e)
      with eq True p1 s d1 show ?thesis by (auto simp: Let_def stop_def)
    next
      case None
      note n1 = None
      show ?thesis
      proof (cases e2)
        case (Some e)
        with eq True p1 p2 n1 s d2 far show ?thesis by (auto simp: Let_def stop_def)
      next
        case None
        with eq True p1 p2 n1 s have "loop nto B stop M (d2, b2) = Some res"
          by (simp add: Let_def stop_def)
        from IH [OF this] d2 far s show ?thesis by simp
      qed
    qed
  qed
qed

lemma compact_loop_returns:
  assumes "0 < B"
  shows "compact_loop nto B start M s \<noteq> None"
proof (induction "M - start" arbitrary: start s rule: less_induct)
  case less
  show ?case
  proof (cases "start < M")
    case False
    then show ?thesis by (subst compact_loop.simps) simp
  next
    case True
    define stop where "stop = min (start + B) M"
    let ?b = "[0..<stop - start]"
    have lt: "M - stop < M - start" using True assms by (auto simp: stop_def)
    obtain e1 s1 where p1: "for_each ?b (copy_to_buffer nto start) s = (e1, s1)"
      by (cases "for_each ?b (copy_to_buffer nto start) s") auto
    obtain e2 s2 where p2: "for_each ?b (copy_from_buffer start) s1 = (e2, s2)"
      by (cases "for_each ?b (copy_from_buffer start) s1") auto
    from less [OF lt, of s2] have r: "compact_loop nto B stop M s2 \<noteq> None" .
    show ?thesis
    proof (cases e1)
      case (Some e)
      with True p1 show ?thesis
        by (subst compact_loop.simps) (simp add: Let_def stop_def [symmetric])
    next
      case None
      note n1 = None
      show ?thesis
      proof (cases e2)
        case (Some e)
        with True p1 p2 n1 show ?thesis
          by (subst compact_loop.simps) (simp add: Let_def stop_def [symmetric])
      next
        case None
        with True p1 p2 n1 r show ?thesis
          by (subst compact_loop.simps) (simp add: Let_def stop_def [symmetric])
      qed
    qed
  qed
qed

text \<open>
  C3, amended: the data and the buffer agree on the number of dimensions, the buffer
  is not empty, \<open>new_to_old\<close> is sorted, and every element \<open>new_to_old[j]\<close> is at
  least \<open>j\<close> and below the size of the data (as it is for every strictly increasing
  sequence of valid indices). Then \<^verbatim>\<open>compact_data\<close> returns without an error, the data
  keeps its size, and its entry at every \<open>j\<close> below the length of \<open>new_to_old\<close> is
  the entry the original data had at \<open>new_to_old[j]\<close>.
\<close>

theorem compact_data_correct:
  assumes "dimensions data = dimensions buffer" "0 < size_of buffer" "sorted new_to_old"
    "\<forall>j < length new_to_old. j \<le> new_to_old ! j \<and> new_to_old ! j < size_of data"
  shows "\<exists>data' buffer'.
           compact_data data buffer new_to_old = Some (None, data', buffer') \<and>
           size_of data' = size_of data \<and>
           (\<forall>j < length new_to_old. get_datum data' j = get_datum data (new_to_old ! j))"
proof -
  let ?M = "length new_to_old" and ?N = "size_of data"
  have MN: "?M \<le> ?N"
  proof (cases "?M = 0")
    case False
    then have "?M - 1 < ?M" by simp
    with assms(4) have "?M - 1 \<le> new_to_old ! (?M - 1)" "new_to_old ! (?M - 1) < ?N" by blast+
    then show ?thesis by linarith
  qed simp
  from compact_loop_total [OF assms(2) refl MN, where start = 0 and data = data
      and buffer = buffer] assms(4)
  obtain data' buffer' where r:
    "compact_loop new_to_old (size_of buffer) 0 ?M (data, buffer) = Some (None, data', buffer')"
    "size_of data' = ?N"
    "\<forall>j. 0 \<le> j \<and> j < ?M \<longrightarrow> entries data' ! j = entries data ! (new_to_old ! j)"
    by auto
  have "\<forall>j < ?M. get_datum data' j = get_datum data (new_to_old ! j)"
    using r(2,3) assms(4) MN by (auto simp: get_datum_def)
  with r assms(1) show ?thesis by (simp add: compact_data_def)
qed

theorem compact_data_correct_witness:
  "sorted [0, 2, 3, 5 :: nat] \<and>
   list_all (\<lambda>j. j \<le> [0, 2, 3, 5] ! j \<and> [0, 2, 3, 5] ! j < (6 :: nat)) [0, 1, 2, 3] \<and>
   compact_data \<lparr>dimensions = 1, entries = [10, 11, 12, 13, 14, 15 :: nat]\<rparr>
       \<lparr>dimensions = 1, entries = [0, 0]\<rparr> [0, 2, 3, 5]
     = Some (None, \<lparr>dimensions = 1, entries = [10, 12, 13, 15, 14, 15]\<rparr>,
             \<lparr>dimensions = 1, entries = [13, 15]\<rparr>)"
  using compact_data_correct [of "\<lparr>dimensions = 1, entries = [10, 11, 12, 13, 14, 15 :: nat]\<rparr>"
      "\<lparr>dimensions = 1, entries = [0, 0]\<rparr>" "[0, 2, 3, 5]"]
  by (simp add: compact_data_def compact_loop.simps size_of_def copy_to_buffer_def
      copy_from_buffer_def get_datum_def set_datum_def upt_rec)

text \<open>
  The claim as stated fails for a sorted sequence with a repeated element: with a
  buffer of one entry and \<open>new_to_old = [0, 0, 1]\<close>, slot 1 is overwritten by the old
  entry 0 before the third window reads it, so slot 2 ends as 10 where the original
  entry 1 was 11.
\<close>

theorem compact_data_counterexample:
  "sorted [0, 0, 1 :: nat] \<and>
   list_all (\<lambda>i. i < size_of \<lparr>dimensions = 1, entries = [10, 11, 12 :: nat]\<rparr>) [0, 0, 1] \<and>
   1 \<le> size_of \<lparr>dimensions = 1, entries = [0 :: nat]\<rparr> \<and>
   compact_data \<lparr>dimensions = 1, entries = [10, 11, 12 :: nat]\<rparr>
       \<lparr>dimensions = 1, entries = [0]\<rparr> [0, 0, 1]
     = Some (None, \<lparr>dimensions = 1, entries = [10, 10, 10]\<rparr>, \<lparr>dimensions = 1, entries = [10]\<rparr>) \<and>
   [10, 10, 10 :: nat] ! 2 \<noteq> [10, 11, 12] ! ([0, 0, 1] ! 2)"
  by (simp add: compact_data_def compact_loop.simps size_of_def copy_to_buffer_def
      copy_from_buffer_def get_datum_def set_datum_def upt_rec)

text \<open>
  C6: \<^verbatim>\<open>compact_data\<close> throws the dimension-mismatch error exactly when the two
  numbers of dimensions differ, and then the data and the buffer are as they were.
  With equal dimensions no run ends in an exception: the only other way out is an
  index outside a dataset, which the source leaves unchecked, and which does not occur
  when the buffer is not empty, \<open>new_to_old\<close> is no longer than the data and all its
  elements are valid indices; then the call returns normally.
\<close>

theorem compact_data_dimension_check:
  "(dimensions data \<noteq> dimensions buffer \<longrightarrow>
      compact_data data buffer nto
        = Some (Some (DimsMismatch (dimensions data) (dimensions buffer)), data, buffer)) \<and>
   (dimensions data = dimensions buffer \<longrightarrow>
      (\<forall>res. compact_data data buffer nto = Some res \<longrightarrow>
             fst res = None \<or> fst res = Some OutOfRange)) \<and>
   (dimensions data = dimensions buffer \<and> 0 < size_of buffer \<and>
    length nto \<le> size_of data \<and> (\<forall>j < length nto. nto ! j < size_of data) \<longrightarrow>
      (\<exists>data' buffer'. compact_data data buffer nto = Some (None, data', buffer')))"
proof (intro conjI impI allI)
  assume "dimensions data \<noteq> dimensions buffer"
  then show "compact_data data buffer nto
        = Some (Some (DimsMismatch (dimensions data) (dimensions buffer)), data, buffer)"
    by (simp add: compact_data_def)
next
  fix res
  assume "dimensions data = dimensions buffer" "compact_data data buffer nto = Some res"
  then show "fst res = None \<or> fst res = Some OutOfRange"
    using compact_loop_error [of nto "size_of buffer" 0 "length nto" "(data, buffer)" res]
    by (simp add: compact_data_def)
next
  assume a: "dimensions data = dimensions buffer \<and> 0 < size_of buffer \<and>
    length nto \<le> size_of data \<and> (\<forall>j < length nto. nto ! j < size_of data)"
  then have "0 < size_of buffer" "length nto \<le> size_of data"
    "\<forall>j < length nto. nto ! j < size_of data" by simp_all
  from compact_loop_total [OF this(1) refl this(2,3), where start = 0 and data = data
      and buffer = buffer] a
  show "\<exists>data' buffer'. compact_data data buffer nto = Some (None, data', buffer')"
    by (auto simp: compact_data_def)
qed

theorem compact_data_dimension_check_witness:
  "compact_data \<lparr>dimensions = 2, entries = [10, 11 :: nat]\<rparr> \<lparr>dimensions = 3, entries = [0]\<rparr> [1]
     = Some (Some (DimsMismatch 2 3), \<lparr>dimensions = 2, entries = [10, 11]\<rparr>,
             \<lparr>dimensions = 3, entries = [0]\<rparr>) \<and>
   compact_data \<lparr>dimensions = 2, entries = [10, 11 :: nat]\<rparr> \<lparr>dimensions = 2, entries = [0]\<rparr> [1]
     = Some (None, \<lparr>dimensions = 2, entries = [11, 11]\<rparr>, \<lparr>dimensions = 2, entries = [11]\<rparr>)"
  using compact_data_dimension_check [of "\<lparr>dimensions = 2, entries = [10, 11 :: nat]\<rparr>"
      "\<lparr>dimensions = 3, entries = [0]\<rparr>" "[1]"]
    compact_data_dimension_check [of "\<lparr>dimensions = 2, entries = [10, 11 :: nat]\<rparr>"
      "\<lparr>dimensions = 2, entries = [0]\<rparr>" "[1]"]
  by (simp add: compact_data_def compact_loop.simps size_of_def copy_to_buffer_def
      copy_from_buffer_def get_datum_def set_datum_def upt_rec)

text \<open>
  C7: however a call of \<^verbatim>\<open>compact_data\<close> ends, the data has the size and the number
  of dimensions it had before, and every entry at an index from the length of
  \<open>new_to_old\<close> on is the one it was; and the call does end when the buffer is not
  empty.
\<close>

theorem compact_data_frame:
  "(\<forall>r data' buffer'. compact_data data buffer nto = Some (r, data', buffer') \<longrightarrow>
      size_of data' = size_of data \<and> dimensions data' = dimensions data \<and>
      (\<forall>i. length nto \<le> i \<and> i < size_of data \<longrightarrow> get_datum data' i = get_datum data i)) \<and>
   (0 < size_of buffer \<longrightarrow> compact_data data buffer nto \<noteq> None)"
proof (intro conjI impI allI)
  fix r data' buffer'
  assume c: "compact_data data buffer nto = Some (r, data', buffer')"
  have *: "size_of data' = size_of data \<and> dimensions data' = dimensions data \<and>
      (\<forall>i. length nto \<le> i \<longrightarrow> entries data' ! i = entries data ! i)"
  proof (cases "dimensions data = dimensions buffer")
    case True
    with c have "compact_loop nto (size_of buffer) 0 (length nto) (data, buffer)
                  = Some (r, data', buffer')"
      by (simp add: compact_data_def)
    from compact_loop_frame [OF this] show ?thesis by simp
  next
    case False
    with c show ?thesis by (simp add: compact_data_def)
  qed
  from * show "size_of data' = size_of data" "dimensions data' = dimensions data" by simp_all
  fix i
  assume "length nto \<le> i \<and> i < size_of data"
  with * show "get_datum data' i = get_datum data i" by (simp add: get_datum_def)
next
  assume "0 < size_of buffer"
  from compact_loop_returns [OF this, of nto 0 "length nto" "(data, buffer)"]
  show "compact_data data buffer nto \<noteq> None"
    by (simp add: compact_data_def Let_def)
qed

theorem compact_data_frame_witness:
  "compact_data \<lparr>dimensions = 1, entries = [10, 11, 12, 13 :: nat]\<rparr>
       \<lparr>dimensions = 1, entries = [0]\<rparr> [1, 3]
     = Some (None, \<lparr>dimensions = 1, entries = [11, 13, 12, 13]\<rparr>, \<lparr>dimensions = 1, entries = [13]\<rparr>)"
  using compact_data_frame [of "\<lparr>dimensions = 1, entries = [10, 11, 12, 13 :: nat]\<rparr>"
      "\<lparr>dimensions = 1, entries = [0]\<rparr>" "[1, 3]"]
  by (simp add: compact_data_def compact_loop.simps size_of_def copy_to_buffer_def
      copy_from_buffer_def get_datum_def set_datum_def upt_rec)

section \<open>Properties of the flat search\<close>

lemma length_bulk_insert [simp]: "length (bulk_insert srt qi nb scratch) = length scratch"
  by (simp add: bulk_insert_def)

lemma nth_bulk_insert:
  "i < length scratch \<Longrightarrow>
   bulk_insert srt qi nb scratch ! i
     = (if i = qi then sorter_insert srt nb (scratch ! i) else scratch ! i)"
  by (simp add: bulk_insert_def nth_list_update)

lemma query_loop:
  assumes "a + n \<le> length scratch"
  shows "length (fold (\<lambda>j sc. bulk_insert srt (a + j) (d, g (a + j)) sc) [0..<n] scratch)
           = length scratch \<and>
         (\<forall>i < length scratch.
            fold (\<lambda>j sc. bulk_insert srt (a + j) (d, g (a + j)) sc) [0..<n] scratch ! i
              = (if a \<le> i \<and> i < a + n then sorter_insert srt (d, g i) (scratch ! i)
                 else scratch ! i))"
  using assms
proof (induction n)
  case 0
  then show ?case by auto
next
  case (Suc n)
  then show ?case by (auto simp: nth_bulk_insert)
qed

lemma search_patch_heap:
  assumes "fst qs \<le> snd qs" "snd qs \<le> length scratch"
  shows "length (search_patch srt dist data queries ds qs predicate scratch) = length scratch \<and>
         (\<forall>i < length scratch.
            search_patch srt dist data queries ds qs predicate scratch ! i
              = (if fst qs \<le> i \<and> i < snd qs
                 then fold (heap_step srt dist data (entries queries ! i) predicate)
                        [fst ds..<snd ds] (scratch ! i)
                 else scratch ! i))"
proof -
  define body where "body = (\<lambda>data_index scratch.
             if \<not> predicate data_index then scratch
             else (let datum = entries data ! data_index in
                   fold (\<lambda>i scratch.
                           (let query_index = fst qs + i;
                                d = dist (entries queries ! query_index) datum in
                            bulk_insert srt query_index (data_index, d) scratch))
                        [0..<snd qs - fst qs] scratch))"
  have body: "length (body d sc) = length sc \<and>
      (\<forall>i < length sc. body d sc ! i =
         (if fst qs \<le> i \<and> i < snd qs
          then heap_step srt dist data (entries queries ! i) predicate d (sc ! i)
          else sc ! i))" if "length sc = length scratch" for d sc
  proof (cases "predicate d")
    case False
    then show ?thesis by (simp add: body_def heap_step_def)
  next
    case True
    have "fst qs + (snd qs - fst qs) \<le> length sc" using assms that by simp
    from query_loop [OF this, of srt d "\<lambda>qi. dist (entries queries ! qi) (entries data ! d)"]
    show ?thesis using True assms by (auto simp: body_def heap_step_def Let_def)
  qed
  have "length (fold body xs sc) = length sc \<and>
      (\<forall>i < length sc. fold body xs sc ! i =
         (if fst qs \<le> i \<and> i < snd qs
          then fold (heap_step srt dist data (entries queries ! i) predicate) xs (sc ! i)
          else sc ! i))" if "length sc = length scratch" for xs sc
    using that
  proof (induction xs arbitrary: sc)
    case Nil
    then show ?case by simp
  next
    case (Cons x xs)
    from body [OF Cons.prems, of x] have b: "length (body x sc) = length sc"
      "\<forall>i < length sc. body x sc ! i =
         (if fst qs \<le> i \<and> i < snd qs
          then heap_step srt dist data (entries queries ! i) predicate x (sc ! i)
          else sc ! i)" by simp_all
    from Cons.IH [of "body x sc"] b Cons.prems show ?case by simp
  qed
  from this [of scratch "[fst ds..<snd ds]"] show ?thesis
    by (simp add: search_patch_def body_def)
qed

lemma fold_patches_heap:
  assumes "\<forall>qs \<in> set slices. fst qs \<le> snd qs \<and> snd qs \<le> length scratch"
  shows "length (fold (\<lambda>qs sc. search_patch srt dist data queries ds qs predicate sc) slices scratch)
           = length scratch \<and>
         (\<forall>i < length scratch.
            fold (\<lambda>qs sc. search_patch srt dist data queries ds qs predicate sc) slices scratch ! i
              = (fold (heap_step srt dist data (entries queries ! i) predicate) [fst ds..<snd ds]
                  ^^ length (filter (\<lambda>qs. fst qs \<le> i \<and> i < snd qs) slices)) (scratch ! i))"
  using assms
proof (induction slices arbitrary: scratch)
  case Nil
  then show ?case by simp
next
  case (Cons qs slices)
  let ?sc = "search_patch srt dist data queries ds qs predicate scratch"
  from Cons.prems have qs: "fst qs \<le> snd qs" "snd qs \<le> length scratch" by simp_all
  note p = search_patch_heap [OF qs, of srt dist data queries ds predicate]
  from p have len: "length ?sc = length scratch" by simp
  from Cons.prems len have "\<forall>qs \<in> set slices. fst qs \<le> snd qs \<and> snd qs \<le> length ?sc" by simp
  from Cons.IH [OF this] len p show ?case
    by (simp add: funpow_swap1)
qed

lemma filter_count_perm:
  "mset xs = mset ys \<Longrightarrow> length (filter P xs) = length (filter P ys)"
  by (metis mset_filter size_mset)

lemma filter_eq_upt: "filter (\<lambda>j. j = a) [0..<m] = (if a < m then [a] else [])"
  by (induction m) auto

lemma div_round_up_bound:
  assumes "j < div_round_up n c"
  shows "j * c \<le> n"
proof (cases "c = 0")
  case True
  then show ?thesis by simp
next
  case False
  from assms have "j \<le> n div c"
    by (auto simp: div_round_up_def split: if_splits)
  then have "j * c \<le> (n div c) * c" by simp
  also have "\<dots> \<le> n" by simp
  finally show ?thesis .
qed

lemma div_round_up_covers:
  assumes "0 < c" "i < n"
  shows "i div c < div_round_up n c"
proof (cases "n mod c = 0")
  case True
  then have "n = (n div c) * c" by auto
  with assms have "i < (n div c) * c" by simp
  then have "i div c < n div c" using assms(1) by (simp add: less_mult_imp_div_less)
  with True show ?thesis by (simp add: div_round_up_def)
next
  case False
  have "i div c \<le> n div c" using assms by (simp add: div_le_mono)
  with False show ?thesis by (simp add: div_round_up_def)
qed

lemma chunks_bounds:
  "qs \<in> set (chunks n c) \<Longrightarrow> fst qs \<le> snd qs \<and> snd qs \<le> n"
  by (auto simp: chunks_def dest: div_round_up_bound)

lemma chunk_of_index:
  assumes "0 < c"
  shows "(j * c \<le> i \<and> i < j * c + c) = (j = i div (c::nat))"
proof
  assume "j * c \<le> i \<and> i < j * c + c"
  then have "c * j \<le> i" "i < c * Suc j" by (simp_all add: mult.commute)
  then have "i div c = j" by (rule div_nat_eqI)
  then show "j = i div c" by simp
next
  assume "j = i div c"
  moreover have "i div c * c \<le> i" by simp
  moreover have "i < i div c * c + c"
  proof -
    have "i = i div c * c + i mod c" by simp
    moreover have "i mod c < c" using assms by simp
    ultimately show ?thesis by linarith
  qed
  ultimately show "j * c \<le> i \<and> i < j * c + c" by simp
qed

lemma chunks_cover_once:
  assumes "0 < c" "i < n"
  shows "length (filter (\<lambda>qs. fst qs \<le> i \<and> i < snd qs) (chunks n c)) = 1"
proof -
  have "filter (\<lambda>qs. fst qs \<le> i \<and> i < snd qs) (chunks n c)
        = map (\<lambda>j. (j * c, min n (j * c + c)))
            (filter (\<lambda>j. j * c \<le> i \<and> i < min n (j * c + c)) [0..<div_round_up n c])"
    by (simp add: chunks_def filter_map o_def)
  also have "(\<lambda>j. j * c \<le> i \<and> i < min n (j * c + c)) = (\<lambda>j. j = i div c)"
    using assms chunk_of_index [OF assms(1), of _ i] by auto
  finally show ?thesis
    using div_round_up_covers [OF assms] by (simp add: filter_eq_upt)
qed

lemma search_subset_heap:
  assumes "each_slice_once sched" "0 < compute_query_batch_size cfg (size_of queries)"
    "length scratch = size_of queries"
  shows "length (search_subset srt dist cfg sched data queries ds predicate scratch)
           = length scratch \<and>
         (\<forall>i < length scratch.
            search_subset srt dist cfg sched data queries ds predicate scratch ! i
              = fold (heap_step srt dist data (entries queries ! i) predicate) [fst ds..<snd ds]
                  (scratch ! i))"
proof -
  let ?cs = "chunks (size_of queries) (compute_query_batch_size cfg (size_of queries))"
  from assms(1) have "\<forall>tile slices. mset (sched tile slices) = mset slices"
    unfolding each_slice_once_def .
  then have m: "mset (sched ds ?cs) = mset ?cs" by blast
  then have "set (sched ds ?cs) = set ?cs" by (rule mset_eq_setD)
  then have ok: "\<forall>qs \<in> set (sched ds ?cs). fst qs \<le> snd qs \<and> snd qs \<le> length scratch"
    using chunks_bounds assms(3) by metis
  have one: "length (filter (\<lambda>qs. fst qs \<le> i \<and> i < snd qs) (sched ds ?cs)) = 1"
    if "i < length scratch" for i
    using filter_count_perm [OF m] chunks_cover_once [OF assms(2)] that assms(3) by simp
  from fold_patches_heap [OF ok, of srt dist data queries ds predicate] one
  show ?thesis
    by (simp add: search_subset_def dynamic_partition_def)
qed

lemma fold_tiles_heap:
  assumes "each_slice_once sched" "0 < compute_query_batch_size cfg (size_of queries)"
    "length scratch = size_of queries"
  shows "length (fold (\<lambda>tile sc. search_subset srt dist cfg sched data queries tile predicate sc)
                   tiles scratch) = length scratch \<and>
         (\<forall>i < length scratch.
            fold (\<lambda>tile sc. search_subset srt dist cfg sched data queries tile predicate sc)
              tiles scratch ! i
              = fold (heap_step srt dist data (entries queries ! i) predicate)
                  (concat (map (\<lambda>t. [fst t..<snd t]) tiles)) (scratch ! i))"
  using assms(3)
proof (induction tiles arbitrary: scratch)
  case Nil
  then show ?case by simp
next
  case (Cons t tiles)
  let ?sc = "search_subset srt dist cfg sched data queries t predicate scratch"
  note s = search_subset_heap [OF assms(1,2) Cons.prems, of srt dist data t predicate]
  then have len: "length ?sc = size_of queries" using Cons.prems by simp
  from Cons.IH [OF len] s show ?case by simp
qed

lemma data_tiles_cover:
  assumes "0 < b"
  shows "start \<le> N \<Longrightarrow>
     \<exists>tiles. data_tiles N b start = Some tiles \<and>
             concat (map (\<lambda>t. [fst t..<snd t]) tiles) = [start..<N]"
proof (induction "N - start" arbitrary: start rule: less_induct)
  case less
  show ?case
  proof (cases "start < N")
    case False
    with less.prems show ?thesis by (subst data_tiles.simps) simp
  next
    case True
    define stop where "stop = min N (start + b)"
    have st: "start < stop" "stop \<le> N" using True assms by (auto simp: stop_def)
    then have "N - stop < N - start" by linarith
    from less.hyps [OF this st(2)] obtain tiles where
      t: "data_tiles N b stop = Some tiles"
         "concat (map (\<lambda>t. [fst t..<snd t]) tiles) = [stop..<N]" by blast
    have "[start..<stop] @ [stop..<N] = [start..<N]"
      using st by (metis less_imp_le_nat upt_add_eq_append le_Suc_ex)
    with t True show ?thesis
      by (subst data_tiles.simps) (simp add: Let_def stop_def [symmetric])
  qed
qed

lemma compute_data_batch_size_pos:
  "0 < size_of data \<Longrightarrow> 0 < compute_data_batch_size cfg (size_of data)"
  by (simp add: compute_data_batch_size_def default_data_batch_size_def)

lemma search_tiles:
  "\<exists>tiles. data_tiles (size_of data) (compute_data_batch_size cfg (size_of data)) 0 = Some tiles \<and>
           concat (map (\<lambda>t. [fst t..<snd t]) tiles) = [0..<size_of data]"
proof (cases "size_of data = 0")
  case True
  then show ?thesis by (subst data_tiles.simps) simp
next
  case False
  then have "0 < compute_data_batch_size cfg (size_of data)"
    by (simp add: compute_data_batch_size_pos)
  from data_tiles_cover [OF this, of 0 "size_of data"] show ?thesis by simp
qed

lemma div_round_up_pos: "0 < n \<Longrightarrow> 0 < d \<Longrightarrow> 0 < div_round_up n d"
  by (cases "n mod d = 0") (auto simp: div_round_up_def)

lemma compute_query_batch_size_pos:
  "0 < get_num_threads cfg \<Longrightarrow> 0 < n \<Longrightarrow> 0 < compute_query_batch_size cfg n"
  by (simp add: compute_query_batch_size_def div_round_up_pos)

lemma search_eq_reference:
  assumes "0 < get_num_threads cfg" "each_slice_once sched"
  shows "search srt dist cfg sched data queries k predicate
           = Some (reference_search srt dist data queries k predicate)"
proof -
  obtain tiles where t:
    "data_tiles (size_of data) (compute_data_batch_size cfg (size_of data)) 0 = Some tiles"
    "concat (map (\<lambda>t. [fst t..<snd t]) tiles) = [0..<size_of data]"
    using search_tiles by blast
  define Q where "Q = size_of queries"
  define final where "final = fold (\<lambda>tile sc.
      search_subset srt dist cfg sched data queries tile predicate sc) tiles
      (bulk_prepare srt Q k)"
  have heap: "final ! i = reference_heap srt dist data (entries queries ! i) k predicate"
    if "i < Q" for i
  proof -
    from that have "0 < compute_query_batch_size cfg (size_of queries)"
      using assms(1) by (simp add: compute_query_batch_size_pos Q_def)
    from fold_tiles_heap [OF assms(2) this, of "bulk_prepare srt Q k" srt dist data predicate tiles]
      that t(2)
    show ?thesis
      by (simp add: final_def bulk_prepare_def Q_def reference_heap_def)
  qed
  have "map (\<lambda>i. map (\<lambda>j. sorter_result srt (final ! i) j) [0..<k]) [0..<Q]
        = map (\<lambda>i. map (sorter_result srt
                 (reference_heap srt dist data (entries queries ! i) k predicate)) [0..<k]) [0..<Q]"
    using heap by simp
  also have "\<dots> = reference_search srt dist data queries k predicate"
    unfolding reference_search_def Q_def size_of_def
    by (rule nth_equalityI) simp_all
  finally show ?thesis
    using t(1) by (simp add: search_def Let_def final_def Q_def)
qed

lemma swo_less: "strict_weak_order ((<) :: int \<Rightarrow> int \<Rightarrow> bool)"
  by (auto simp: strict_weak_order_def)

lemma each_slice_once_rev: "each_slice_once (\<lambda>tile slices. rev slices)"
  by (simp add: each_slice_once_def)

text \<open>
  C2: for a fixed dataset, fixed queries, distance, number of neighbors and predicate,
  and for any sorter, \<^verbatim>\<open>search\<close> returns, and returns the same matrix of ids and
  scores, under any two configurations: any two values of \<^verbatim>\<open>data_batch_size\<close>, of
  \<^verbatim>\<open>query_batch_size\<close> and of the number of workers (at least one), and any two orders
  in which the workers take the query slices.
\<close>

theorem search_deterministic:
  assumes "0 < get_num_threads cfg1" "0 < get_num_threads cfg2" "each_slice_once sched1" "each_slice_once sched2"
  shows "search srt dist cfg1 sched1 data queries k predicate
           = search srt dist cfg2 sched2 data queries k predicate \<and>
         search srt dist cfg1 sched1 data queries k predicate \<noteq> None"
proof -
  let ?ref = "reference_search srt dist data queries k predicate"
  have "search srt dist cfg1 sched1 data queries k predicate = Some ?ref"
    using assms(1,3) by (rule search_eq_reference)
  moreover have "search srt dist cfg2 sched2 data queries k predicate = Some ?ref"
    using assms(2,4) by (rule search_eq_reference)
  ultimately show ?thesis by simp
qed

theorem search_deterministic_witness:
  "search (heap_sorter (<)) (\<lambda>q x. \<bar>q - x\<bar>)
      \<lparr>get_data_batch_size = 0, get_query_batch_size = 0, get_num_threads = 1\<rparr>
      (\<lambda>tile slices. slices)
      \<lparr>dimensions = 1, entries = [0, 1, - 1, 5, 13 :: int]\<rparr>
      \<lparr>dimensions = 1, entries = [0, 4 :: int]\<rparr> 3 (\<lambda>i. True)
   = search (heap_sorter (<)) (\<lambda>q x. \<bar>q - x\<bar>)
      \<lparr>get_data_batch_size = 2, get_query_batch_size = 1, get_num_threads = 8\<rparr>
      (\<lambda>tile slices. rev slices)
      \<lparr>dimensions = 1, entries = [0, 1, - 1, 5, 13 :: int]\<rparr>
      \<lparr>dimensions = 1, entries = [0, 4 :: int]\<rparr> 3 (\<lambda>i. True)"
proof -
  have "each_slice_once (\<lambda>tile slices. slices)" "each_slice_once (\<lambda>tile slices. rev slices)"
    by (simp_all add: each_slice_once_def)
  from search_deterministic [OF _ _ this,
      of "\<lparr>get_data_batch_size = 0, get_query_batch_size = 0, get_num_threads = 1\<rparr>"
         "\<lparr>get_data_batch_size = 2, get_query_batch_size = 1, get_num_threads = 8\<rparr>"
         "heap_sorter (<)" "\<lambda>q x. \<bar>q - x\<bar>"
         "\<lparr>dimensions = 1, entries = [0, 1, - 1, 5, 13 :: int]\<rparr>"
         "\<lparr>dimensions = 1, entries = [0, 4 :: int]\<rparr>" 3 "\<lambda>i. True"]
  show ?thesis by simp
qed

lemma fold_heap_step:
  "fold (heap_step srt dist data q predicate) ds h
     = fold (sorter_insert srt) (map (\<lambda>d. (d, dist q (entries data ! d))) (filter predicate ds)) h"
  by (induction ds arbitrary: h) (simp_all add: heap_step_def)

lemma insert_sorted_slots:
  "insert_sorted (slot_better cmp) (Some nb) (map Some xs @ replicate r None)
     = map Some (insert_sorted (nb_better cmp) nb xs) @ replicate r None"
proof (induction xs)
  case Nil
  show ?case by (cases r) (simp_all add: slot_better_def)
next
  case (Cons x xs)
  then show ?case by (simp add: slot_better_def)
qed

lemma length_insert_sorted [simp]: "length (insert_sorted lt x ys) = Suc (length ys)"
  by (induction ys) simp_all

lemma heap_insert_pad:
  assumes "length xs \<le> k"
  shows "heap_insert cmp nb (pad k xs) = pad k (take k (insert_sorted (nb_better cmp) nb xs))"
proof -
  have len: "length (pad k xs) = k" using assms by (simp add: pad_def)
  have "heap_insert cmp nb (pad k xs)
          = take k (map Some (insert_sorted (nb_better cmp) nb xs)
                      @ replicate (k - length xs) None)"
    unfolding heap_insert_def len by (simp add: pad_def insert_sorted_slots)
  also have "\<dots> = pad k (take k (insert_sorted (nb_better cmp) nb xs))"
  proof (cases "length xs < k")
    case True
    then show ?thesis by (simp add: pad_def min_def Suc_diff_Suc)
  next
    case False
    with assms have "length xs = k" by simp
    then show ?thesis by (simp add: pad_def take_map min_def)
  qed
  finally show ?thesis .
qed

lemma take_insert_sorted_take:
  "take k (insert_sorted lt x (take k ys)) = take k (insert_sorted lt x ys)"
proof (induction ys arbitrary: k)
  case Nil
  show ?case by simp
next
  case (Cons y ys)
  show ?case
  proof (cases k)
    case 0
    then show ?thesis by simp
  next
    case (Suc k')
    show ?thesis
    proof (cases "lt x y")
      case True
      then show ?thesis by (cases k') (simp_all add: Suc)
    next
      case False
      with Cons.IH [of k'] show ?thesis by (simp add: Suc)
    qed
  qed
qed

lemma fold_heap_insert:
  "fold (heap_insert cmp) cands (pad k (take k acc))
     = pad k (take k (fold (insert_sorted (nb_better cmp)) cands acc))"
proof (induction cands arbitrary: acc)
  case Nil
  show ?case by simp
next
  case (Cons c cands)
  have "heap_insert cmp c (pad k (take k acc))
          = pad k (take k (insert_sorted (nb_better cmp) c acc))"
    by (simp add: heap_insert_pad take_insert_sorted_take)
  with Cons.IH [of "insert_sorted (nb_better cmp) c acc"] show ?case by simp
qed

lemma set_insert_sorted [simp]: "set (insert_sorted lt x ys) = insert x (set ys)"
  by (induction ys) auto

lemma mset_insert_sorted [simp]: "mset (insert_sorted lt x ys) = add_mset x (mset ys)"
  by (induction ys) simp_all

lemma distinct_insert_sorted [simp]:
  "distinct (insert_sorted lt x ys) = (x \<notin> set ys \<and> distinct ys)"
  by (induction ys) auto

lemma mset_fold_insert_sorted:
  "mset (fold (insert_sorted lt) xs acc) = mset xs + mset acc"
  by (induction xs arbitrary: acc) simp_all

lemma sorted_insert_sorted:
  assumes "\<And>a b c. lt a b \<Longrightarrow> lt b c \<Longrightarrow> lt a c"
    and "\<And>y. y \<in> set ys \<Longrightarrow> \<not> lt x y \<Longrightarrow> lt y x"
    and "sorted_wrt lt ys"
  shows "sorted_wrt lt (insert_sorted lt x ys)"
  using assms(2,3)
proof (induction ys)
  case Nil
  show ?case by simp
next
  case (Cons y ys)
  show ?case
  proof (cases "lt x y")
    case True
    with Cons.prems assms(1) show ?thesis by auto
  next
    case False
    with Cons show ?thesis by auto
  qed
qed

lemma sorted_fold_insert_sorted:
  assumes "\<And>a b c. lt a b \<Longrightarrow> lt b c \<Longrightarrow> lt a c"
    and "\<And>a b. a \<in> S \<Longrightarrow> b \<in> S \<Longrightarrow> a \<noteq> b \<Longrightarrow> lt a b \<or> lt b a"
  shows "set xs \<union> set acc \<subseteq> S \<Longrightarrow> distinct (xs @ acc) \<Longrightarrow> sorted_wrt lt acc
           \<Longrightarrow> sorted_wrt lt (fold (insert_sorted lt) xs acc)"
proof (induction xs arbitrary: acc)
  case Nil
  then show ?case by simp
next
  case (Cons x xs)
  have "sorted_wrt lt (insert_sorted lt x acc)"
  proof (rule sorted_insert_sorted [OF assms(1)])
    fix y assume "y \<in> set acc" "\<not> lt x y"
    with Cons.prems assms(2) [of x y] show "lt y x" by auto
  qed (use Cons.prems in auto)
  moreover have "set xs \<union> set (insert_sorted lt x acc) \<subseteq> S" using Cons.prems by auto
  moreover have "distinct (xs @ insert_sorted lt x acc)"
    using Cons.prems(2) by auto
  ultimately show ?case using Cons.IH by simp
qed

lemma nb_better_trans:
  assumes "strict_weak_order cmp" "nb_better cmp a b" "nb_better cmp b c"
  shows "nb_better cmp a c"
proof -
  from assms(1) have tr: "\<And>a b c. cmp a b \<Longrightarrow> cmp b c \<Longrightarrow> cmp a c"
    and nt: "\<And>a b c. \<not> cmp a b \<Longrightarrow> \<not> cmp b c \<Longrightarrow> \<not> cmp a c"
    unfolding strict_weak_order_def by blast+
  from assms(2,3) show ?thesis
    unfolding nb_better_def
    by (metis tr nt less_trans)
qed

lemma nb_better_total:
  "fst a \<noteq> fst b \<Longrightarrow> nb_better cmp a b \<or> nb_better cmp b a"
  unfolding nb_better_def by (metis nat_neq_iff)

lemma distinct_candidates: "distinct (map fst (candidates dist data q predicate))"
  by (simp add: candidates_def o_def)

lemma sorted_candidates:
  assumes "strict_weak_order cmp"
  shows "sorted_wrt (nb_better cmp)
           (fold (insert_sorted (nb_better cmp)) (candidates dist data q predicate) [])"
proof (rule sorted_fold_insert_sorted [where S = "set (candidates dist data q predicate)"])
  fix a b c
  assume "nb_better cmp a b" "nb_better cmp b c"
  then show "nb_better cmp a c" by (rule nb_better_trans [OF assms])
next
  fix a b
  assume "a \<in> set (candidates dist data q predicate)"
    "b \<in> set (candidates dist data q predicate)" "a \<noteq> b"
  then have "fst a \<noteq> fst b"
    using distinct_candidates [of dist data q predicate]
    by (meson distinct_map inj_onD)
  then show "nb_better cmp a b \<or> nb_better cmp b a" by (rule nb_better_total)
next
  show "distinct (candidates dist data q predicate @ [])"
    using distinct_candidates [of dist data q predicate] by (simp add: distinct_map)
qed simp_all

lemma is_k_best_pad_take:
  assumes "mset L = mset cands" "distinct L" "sorted_wrt (nb_better cmp) L"
  shows "is_k_best cmp k cands (pad k (take k L))"
proof -
  let ?best = "take k L"
  have len: "length L = length cands" using assms(1) by (metis size_mset)
  have set: "set L = set cands" using assms(1) by (rule mset_eq_setD)
  have m: "min k (length cands) = length ?best" using len by (simp add: min.commute)
  have t: "take (length ?best) (pad k ?best) = map Some ?best"
    by (simp add: pad_def)
  have d: "drop (length ?best) (pad k ?best) = replicate (k - length ?best) None"
    by (simp add: pad_def)
  have b: "map the (map Some ?best) = ?best" by (simp add: o_def)
  have 1: "distinct ?best" using assms(2) by simp
  have 2: "list_all (\<lambda>y. y \<in> set cands) ?best"
    using set set_take_subset [of k L] by (auto simp: list_all_iff)
  have 3: "sorted_wrt (nb_better cmp) ?best"
    using assms(3) by (rule sorted_wrt_take)
  have 4: "list_all (\<lambda>x. x \<in> set ?best \<or> list_all (\<lambda>y. nb_better cmp y x) ?best) cands"
    unfolding list_all_iff
  proof (intro ballI)
    fix x assume "x \<in> set cands"
    show "x \<in> set ?best \<or> (\<forall>y \<in> set ?best. nb_better cmp y x)"
    proof (cases "x \<in> set ?best")
      case False
      have "set L = set (take k L) \<union> set (drop k L)"
        by (metis append_take_drop_id set_append)
      with \<open>x \<in> set cands\<close> set False have x: "x \<in> set (drop k L)" by blast
      have "sorted_wrt (nb_better cmp) (take k L @ drop k L)" using assms(3) by simp
      then have "\<forall>y \<in> set (take k L). \<forall>z \<in> set (drop k L). nb_better cmp y z"
        unfolding sorted_wrt_append by blast
      with x show ?thesis by blast
    qed simp
  qed
  have "length (pad k ?best) = k" by (simp add: pad_def)
  with t d b 1 2 3 4 show ?thesis
    unfolding is_k_best_def Let_def m by simp
qed

lemma reference_heap_sorter:
  "reference_heap (heap_sorter cmp) dist data q k predicate
     = pad k (take k (fold (insert_sorted (nb_better cmp)) (candidates dist data q predicate) []))"
proof -
  have "reference_heap (heap_sorter cmp) dist data q k predicate
          = fold (heap_insert cmp) (candidates dist data q predicate) (pad k (take k []))"
    by (simp add: reference_heap_def fold_heap_step heap_sorter_def candidates_def pad_def)
  then show ?thesis by (simp only: fold_heap_insert)
qed

text \<open>
  C1: with the top-k sorter of the specification and a comparator that is a strict weak
  order, \<^verbatim>\<open>search\<close> returns one row for each query, and row \<open>i\<close> holds the \<open>k\<close> best
  candidates of query \<open>i\<close> among the ids in \<open>[0, N)\<close> that pass the predicate, in
  best-first order with ties between scores going to the lower id (and sentinels in the
  slots for which no candidate is left), whatever the batch sizes, the number of
  workers and the order of the slices.
\<close>

theorem search_exact:
  assumes "strict_weak_order cmp" "0 < get_num_threads cfg" "each_slice_once sched"
  shows "\<exists>result. search (heap_sorter cmp) dist cfg sched data queries k predicate = Some result \<and>
           length result = size_of queries \<and>
           (\<forall>i < size_of queries.
              is_k_best cmp k (candidates dist data (entries queries ! i) predicate) (result ! i))"
proof -
  let ?ref = "reference_search (heap_sorter cmp) dist data queries k predicate"
  have row: "?ref ! i
      = pad k (take k (fold (insert_sorted (nb_better cmp))
                         (candidates dist data (entries queries ! i) predicate) []))"
    (is "_ = pad k (take k ?L)") if "i < size_of queries" for i
  proof -
    have "length (pad k (take k ?L)) = k" by (simp add: pad_def)
    then have "map ((!) (pad k (take k ?L))) [0..<k] = pad k (take k ?L)"
      by (metis map_nth)
    moreover have "sorter_result (heap_sorter cmp) = (!)"
      by (simp add: heap_sorter_def)
    ultimately show ?thesis
      using that by (simp add: reference_search_def size_of_def reference_heap_sorter)
  qed
  have "is_k_best cmp k (candidates dist data (entries queries ! i) predicate) (?ref ! i)"
    if "i < size_of queries" for i
    unfolding row [OF that]
  proof (rule is_k_best_pad_take)
    show "mset (fold (insert_sorted (nb_better cmp))
                 (candidates dist data (entries queries ! i) predicate) [])
          = mset (candidates dist data (entries queries ! i) predicate)"
      by (simp add: mset_fold_insert_sorted)
    then show "distinct (fold (insert_sorted (nb_better cmp))
                 (candidates dist data (entries queries ! i) predicate) [])"
      using distinct_candidates [of dist data "entries queries ! i" predicate]
      by (metis distinct_map mset_eq_imp_distinct_iff)
    show "sorted_wrt (nb_better cmp) (fold (insert_sorted (nb_better cmp))
                 (candidates dist data (entries queries ! i) predicate) [])"
      by (rule sorted_candidates [OF assms(1)])
  qed
  moreover have "length ?ref = size_of queries"
    by (simp add: reference_search_def size_of_def)
  ultimately show ?thesis
    using search_eq_reference [OF assms(2,3), of "heap_sorter cmp" dist data queries k predicate]
    by simp
qed

theorem search_exact_witness:
  "search (heap_sorter (<)) (\<lambda>q x. \<bar>q - x\<bar>)
      \<lparr>get_data_batch_size = 2, get_query_batch_size = 1, get_num_threads = 8\<rparr>
      (\<lambda>tile slices. rev slices)
      \<lparr>dimensions = 1, entries = [0, 1, - 1, 5, 13 :: int]\<rparr>
      \<lparr>dimensions = 1, entries = [0 :: int]\<rparr> 3 (\<lambda>i. True)
     = Some [[Some (0, 0), Some (1, 1), Some (2, 1)]] \<and>
   is_k_best (<) 3
     (candidates (\<lambda>q x. \<bar>q - x\<bar>) \<lparr>dimensions = 1, entries = [0, 1, - 1, 5, 13 :: int]\<rparr>
        0 (\<lambda>i. True))
     [Some (0, 0), Some (1, 1), Some (2, 1)]"
proof -
  let ?cfg = "\<lparr>get_data_batch_size = 2, get_query_batch_size = 1, get_num_threads = 8\<rparr>"
  let ?data = "\<lparr>dimensions = 1, entries = [0, 1, - 1, 5, 13 :: int]\<rparr>"
  let ?queries = "\<lparr>dimensions = 1, entries = [0 :: int]\<rparr>"
  let ?dist = "\<lambda>q x :: int. \<bar>q - x\<bar>"
  have run: "search (heap_sorter (<)) ?dist ?cfg (\<lambda>tile slices. rev slices) ?data ?queries 3
               (\<lambda>i. True) = Some [[Some (0, 0), Some (1, 1), Some (2, 1)]]"
    by (simp add: search_def size_of_def compute_data_batch_size_def data_tiles.simps
        bulk_prepare_def search_subset_def dynamic_partition_def chunks_def div_round_up_def
        compute_query_batch_size_def search_patch_def bulk_insert_def heap_sorter_def
        heap_insert_def slot_better_def nb_better_def upt_rec eval_nat_numeral)
  from search_exact [OF swo_less _ each_slice_once_rev, of ?cfg ?dist ?data ?queries 3 "\<lambda>i. True"]
  obtain result where r:
    "search (heap_sorter (<)) ?dist ?cfg (\<lambda>tile slices. rev slices) ?data ?queries 3
       (\<lambda>i. True) = Some result"
    "\<forall>i < size_of ?queries.
       is_k_best (<) 3 (candidates ?dist ?data (entries ?queries ! i) (\<lambda>i. True)) (result ! i)"
    by auto
  from r(1) run have "result = [[Some (0, 0), Some (1, 1), Some (2, 1)]]" by simp
  with r(2) have "is_k_best (<) 3 (candidates ?dist ?data 0 (\<lambda>i. True))
                    [Some (0, 0), Some (1, 1), Some (2, 1)]"
    by (simp add: size_of_def)
  with run show ?thesis by simp
qed

lemma less_div_round_up:
  assumes "0 < b"
  shows "(j < div_round_up N b) = (j * b < N)"
proof (cases "N mod b = 0")
  case True
  then have N: "N = (N div b) * b" by auto
  have "(j < N div b) = (j * b < (N div b) * b)" using assms by simp
  with True N show ?thesis by (simp add: div_round_up_def)
next
  case False
  have "(j \<le> N div b) = (j * b \<le> N)"
    using assms by (simp add: less_eq_div_iff_mult_less_eq)
  moreover have "j * b \<noteq> N" using False by auto
  ultimately show ?thesis using False by (auto simp: div_round_up_def)
qed

lemma data_tiles_done: "N \<le> start \<Longrightarrow> data_tiles N b start = Some []"
  by (subst data_tiles.simps) simp

lemma data_tiles_from:
  assumes "0 < b"
  shows "j \<le> div_round_up N b \<Longrightarrow>
     data_tiles N b (j * b)
       = Some (map (\<lambda>j. (j * b, min N (j * b + b))) [j..<div_round_up N b])"
proof (induction "div_round_up N b - j" arbitrary: j rule: less_induct)
  case less
  let ?m = "div_round_up N b"
  show ?case
  proof (cases "j < ?m")
    case False
    with less.prems have "j = ?m" by simp
    moreover have "\<not> ?m * b < N" using less_div_round_up [OF assms, of ?m N] by simp
    ultimately show ?thesis by (simp add: data_tiles_done)
  next
    case True
    then have lt: "j * b < N" using less_div_round_up [OF assms] by simp
    have rest: "data_tiles N b (min N (j * b + b))
                  = Some (map (\<lambda>j. (j * b, min N (j * b + b))) [Suc j..<?m])"
    proof (cases "Suc j * b < N")
      case True
      then have "Suc j < ?m" using less_div_round_up [OF assms] by simp
      then have "?m - Suc j < ?m - j" "Suc j \<le> ?m" by simp_all
      from less.hyps [OF this]
      have "data_tiles N b (Suc j * b)
              = Some (map (\<lambda>j. (j * b, min N (j * b + b))) [Suc j..<?m])" .
      moreover have "min N (j * b + b) = Suc j * b" using True by simp
      ultimately show ?thesis by (simp only:)
    next
      case False
      then have "\<not> Suc j < ?m" using less_div_round_up [OF assms] by simp
      then have "[Suc j..<?m] = []" by simp
      moreover have "N \<le> min N (j * b + b)" using False by simp
      ultimately show ?thesis by (simp add: data_tiles_done)
    qed
    have "[j..<?m] = j # [Suc j..<?m]" using True by (rule upt_conv_Cons)
    with lt rest show ?thesis
      by (subst data_tiles.simps) (simp add: Let_def)
  qed
qed

lemma data_tiles_chunks: "0 < b \<Longrightarrow> data_tiles N b 0 = Some (chunks N b)"
  using data_tiles_from [of b 0 N] by (simp add: chunks_def)

lemma chunks_whole: "N \<le> b \<Longrightarrow> chunks N b = chunks N N"
proof (cases "N = 0")
  case True
  then show ?thesis by (simp add: chunks_def div_round_up_def)
next
  case False
  assume "N \<le> b"
  with False have "div_round_up N b = 1"
    by (cases "N = b") (simp_all add: div_round_up_def)
  moreover from False have "div_round_up N N = 1" by (simp add: div_round_up_def)
  ultimately show ?thesis using \<open>N \<le> b\<close> by (simp add: chunks_def)
qed

lemma auto_data_tiles:
  assumes "get_data_batch_size cfg = 0"
  shows "data_tiles N (compute_data_batch_size cfg N) 0 = Some (chunks N (min 100000 N))"
proof -
  have "data_tiles N (compute_data_batch_size cfg N) 0 = Some (chunks N 100000)"
    using assms
    by (simp add: compute_data_batch_size_def default_data_batch_size_def data_tiles_chunks)
  moreover have "chunks N 100000 = chunks N (min 100000 N)"
    using chunks_whole [of N 100000] by (simp add: min_def)
  ultimately show ?thesis by simp
qed

text \<open>
  For a dataset too large for one tile the automatic tiles are full ones of 100000
  indices and a shorter last one; a smaller dataset is a single tile.
\<close>

lemma auto_data_tiles_examples:
  "data_tiles 250000 (compute_data_batch_size
      \<lparr>get_data_batch_size = 0, get_query_batch_size = 0, get_num_threads = 1\<rparr> 250000) 0
     = Some [(0, 100000), (100000, 200000), (200000, 250000)]"
  "data_tiles 5 (compute_data_batch_size
      \<lparr>get_data_batch_size = 0, get_query_batch_size = 0, get_num_threads = 1\<rparr> 5) 0
     = Some [(0, 5)]"
  by (simp_all add: auto_data_tiles chunks_def div_round_up_def upt_rec)

text \<open>
  C5: with \<^verbatim>\<open>data_batch_size\<close> set to 0, \<^verbatim>\<open>search\<close> on a dataset of \<open>N\<close> entries
  tiles the data with the tile size \<open>min 100000 N\<close>: its loop produces the ranges of
  that many consecutive indices that cover \<open>[0, N)\<close> (the last one shorter when the
  size does not divide \<open>N\<close>), and what \<^verbatim>\<open>search\<close> returns is what the calls of
  \<^verbatim>\<open>search_subset\<close> on exactly these tiles, in this order, leave in the sorter.
  (\<^verbatim>\<open>compute_data_batch_size\<close> itself returns 100000; the bound \<open>N\<close> comes from the
  \<^verbatim>\<open>std::min\<close> in the loop of \<^verbatim>\<open>search\<close>.)
\<close>

theorem auto_data_batch_size:
  assumes "get_data_batch_size cfg = 0"
  shows "data_tiles (size_of data) (compute_data_batch_size cfg (size_of data)) 0
           = Some (chunks (size_of data) (min 100000 (size_of data))) \<and>
         search srt dist cfg sched data queries k predicate
           = (let tiles = chunks (size_of data) (min 100000 (size_of data));
                  scratch = fold (\<lambda>tile scratch.
                                    search_subset srt dist cfg sched data queries tile predicate
                                      scratch)
                                 tiles (bulk_prepare srt (size_of queries) k) in
              Some (map (\<lambda>i. map (\<lambda>j. sorter_result srt (scratch ! i) j) [0..<k])
                        [0..<size_of queries]))"
proof
  show tiles: "data_tiles (size_of data) (compute_data_batch_size cfg (size_of data)) 0
           = Some (chunks (size_of data) (min 100000 (size_of data)))"
    using assms by (rule auto_data_tiles)
  show "search srt dist cfg sched data queries k predicate
           = (let tiles = chunks (size_of data) (min 100000 (size_of data));
                  scratch = fold (\<lambda>tile scratch.
                                    search_subset srt dist cfg sched data queries tile predicate
                                      scratch)
                                 tiles (bulk_prepare srt (size_of queries) k) in
              Some (map (\<lambda>i. map (\<lambda>j. sorter_result srt (scratch ! i) j) [0..<k])
                        [0..<size_of queries]))"
    unfolding search_def Let_def tiles by simp
qed

theorem auto_data_batch_size_witness:
  "data_tiles 3 (compute_data_batch_size
      \<lparr>get_data_batch_size = 0, get_query_batch_size = 0, get_num_threads = 2\<rparr> 3) 0
     = Some [(0, 3)] \<and>
   search (heap_sorter (<)) (\<lambda>q x. \<bar>q - x\<bar>)
      \<lparr>get_data_batch_size = 0, get_query_batch_size = 0, get_num_threads = 2\<rparr>
      (\<lambda>tile slices. slices)
      \<lparr>dimensions = 1, entries = [0, 1, - 1 :: int]\<rparr>
      \<lparr>dimensions = 1, entries = [0, 4 :: int]\<rparr> 2 (\<lambda>i. True)
     = Some [[Some (0, 0), Some (1, 1)], [Some (1, 3), Some (0, 4)]]"
proof -
  let ?cfg = "\<lparr>get_data_batch_size = 0, get_query_batch_size = 0, get_num_threads = 2\<rparr>"
  let ?data = "\<lparr>dimensions = 1, entries = [0, 1, - 1 :: int]\<rparr>"
  let ?queries = "\<lparr>dimensions = 1, entries = [0, 4 :: int]\<rparr>"
  have auto: "get_data_batch_size ?cfg = 0" by simp
  have size: "size_of ?data = 3" "size_of ?queries = 2" by (simp_all add: size_of_def)
  have tiles: "chunks 3 (min 100000 3) = [(0, 3)]"
    by (simp add: chunks_def div_round_up_def)
  have part: "dynamic_partition 2 (compute_query_batch_size ?cfg 2) = [(0, 1), (1, 2)]"
    by (simp add: dynamic_partition_def chunks_def compute_query_batch_size_def
        div_round_up_def upt_rec)
  have run: "fold (\<lambda>qs sc. search_patch (heap_sorter (<)) (\<lambda>q x. \<bar>q - x\<bar>) ?data ?queries
                            (0, 3) qs (\<lambda>i. True) sc)
               [(0, 1), (1, 2)] (bulk_prepare (heap_sorter (<)) 2 2)
             = [[Some (0, 0), Some (1, 1)], [Some (1, 3), Some (0, 4)]]"
    by (simp add: bulk_prepare_def search_patch_def bulk_insert_def heap_sorter_def
        heap_insert_def slot_better_def nb_better_def upt_rec eval_nat_numeral)
  have rows: "map (\<lambda>i. map (\<lambda>j. sorter_result (heap_sorter (<))
                   ([[Some (0, 0), Some (1, 1)], [Some (1 :: nat, 3 :: int), Some (0, 4)]] ! i) j)
                 [0..<2]) [0..<2]
              = [[Some (0, 0), Some (1, 1)], [Some (1, 3), Some (0, 4)]]"
    by (simp add: heap_sorter_def upt_rec eval_nat_numeral)
  note th = auto_data_batch_size [OF auto, of ?data "heap_sorter (<)" "\<lambda>q x. \<bar>q - x\<bar>"
      "\<lambda>tile slices. slices" ?queries 2 "\<lambda>i. True"]
  from th have 1: "data_tiles 3 (compute_data_batch_size ?cfg 3) 0 = Some [(0, 3)]"
    unfolding size tiles by (rule conjunct1)
  from th have "search (heap_sorter (<)) (\<lambda>q x. \<bar>q - x\<bar>) ?cfg (\<lambda>tile slices. slices)
                  ?data ?queries 2 (\<lambda>i. True)
      = Some (map (\<lambda>i. map (\<lambda>j. sorter_result (heap_sorter (<))
           (fold (\<lambda>qs sc. search_patch (heap_sorter (<)) (\<lambda>q x. \<bar>q - x\<bar>) ?data ?queries
                            (0, 3) qs (\<lambda>i. True) sc)
               [(0, 1), (1, 2)] (bulk_prepare (heap_sorter (<)) 2 2) ! i) j) [0..<2]) [0..<2])"
    unfolding size tiles Let_def search_subset_def part fold_simps id_apply comp_apply
    by (rule conjunct2)
  then have 2: "search (heap_sorter (<)) (\<lambda>q x. \<bar>q - x\<bar>) ?cfg (\<lambda>tile slices. slices)
                  ?data ?queries 2 (\<lambda>i. True)
      = Some [[Some (0, 0), Some (1, 1)], [Some (1, 3), Some (0, 4)]]"
    unfolding run rows .
  from 1 2 show ?thesis by (rule conjI)
qed

end
